theory Spec2Isabelle
  imports Main "HOL-Library.AList"
begin


section \<open>Objects, prototype chains and the heap\<close>

text \<open>
  The quad tree of \<^verbatim>\<open>GenericQuadTree\<close> is built from plain JavaScript objects. Each
  object has own string-keyed properties (the compact keys of a tree level), own
  symbol-keyed properties (\<^verbatim>\<open>$_KEYS\<close>, \<^verbatim>\<open>$_QUADS\<close>, \<^verbatim>\<open>$_OVERLAY\<close>, \<^verbatim>\<open>$_BURIED\<close>) and a
  prototype. \<^verbatim>\<open>overlay\<close> writes to its argument and shares it with the object it returns,
  so objects live in an explicit heap and are named by their address.

  A value stored in a property is \<^verbatim>\<open>undefined\<close>, a number, a reference to an object of the
  heap, or a \<^verbatim>\<open>Set\<close> of object keys (the leaves of the tree), kept in insertion order.
  The numbers of the tree are counters, so they are integers.
\<close>

type_synonym addr = nat

datatype val = Undefined | Num int | Ref addr | ObjSet "string list"

datatype sym = KEYS | QUADS | OVERLAY | BURIED

datatype error = NotAnObject | TypeError

text \<open>
  \<open>props\<close> are the own enumerable string-keyed properties in insertion order, \<open>syms\<close> the
  own symbol-keyed ones. \<open>proto = None\<close> stands for \<^verbatim>\<open>Object.prototype\<close>, which has no
  enumerable property and none of the four symbols.
\<close>

record obj =
  props :: "(string \<times> val) list"
  syms :: "(sym \<times> val) list"
  proto :: "addr option"

type_synonym heap = "obj list"

text \<open>
  Allocation appends, so the address of a new object is the length of the heap. The only
  place of the source that gives an object a prototype is \<^verbatim>\<open>Object.create(hcw_src)\<close>, where
  the prototype exists before the object does: a prototype always has a smaller address
  than the object that delegates to it. \<open>chain\<close> follows the prototype links under that
  guard (JavaScript itself refuses cyclic prototype chains), and stops at an address that
  is not in the heap.
\<close>

definition alloc :: "heap \<Rightarrow> obj \<Rightarrow> heap" where
  "alloc h ob = h @ [ob]"

function chain :: "heap \<Rightarrow> addr \<Rightarrow> addr list" where
  "chain h a =
     (if a < length h
      then a # (case proto (h ! a) of
                  None \<Rightarrow> []
                | Some p \<Rightarrow> if p < a then chain h p else [])
      else [])"
  by pat_completeness auto
termination
  by (relation "measure (\<lambda>(h, a). a)") auto

declare chain.simps [simp del]

text \<open>Own keys of one object, as \<^verbatim>\<open>Object.keys\<close> returns them.\<close>

definition own_keys :: "heap \<Rightarrow> addr \<Rightarrow> string list" where
  "own_keys h a = map fst (props (h ! a))"

text \<open>
  Property read \<^verbatim>\<open>o[k]\<close>: the first object of the chain that owns \<open>k\<close> decides;
  \<^verbatim>\<open>undefined\<close> when none does.
\<close>

fun get_from :: "heap \<Rightarrow> addr list \<Rightarrow> string \<Rightarrow> val" where
  "get_from h [] k = Undefined"
| "get_from h (a # as) k =
     (case map_of (props (h ! a)) k of Some v \<Rightarrow> v | None \<Rightarrow> get_from h as k)"

definition get :: "heap \<Rightarrow> addr \<Rightarrow> string \<Rightarrow> val" where
  "get h a k = get_from h (chain h a) k"

fun get_sym_from :: "heap \<Rightarrow> addr list \<Rightarrow> sym \<Rightarrow> val" where
  "get_sym_from h [] s = Undefined"
| "get_sym_from h (a # as) s =
     (case map_of (syms (h ! a)) s of Some v \<Rightarrow> v | None \<Rightarrow> get_sym_from h as s)"

definition get_sym :: "heap \<Rightarrow> addr \<Rightarrow> sym \<Rightarrow> val" where
  "get_sym h a s = get_sym_from h (chain h a) s"

text \<open>
  \<^verbatim>\<open>for(const k in o)\<close>: the own enumerable string keys of \<open>o\<close>, then those of its
  prototype that \<open>o\<close> does not shadow, and so on up the chain. Symbol keys are never
  enumerated. (JavaScript visits integer-like keys first; the order plays no role below.)
\<close>

fun for_in_from :: "heap \<Rightarrow> addr list \<Rightarrow> string list" where
  "for_in_from h [] = []"
| "for_in_from h (a # as) =
     own_keys h a @ filter (\<lambda>k. k \<notin> set (own_keys h a)) (for_in_from h as)"

definition for_in :: "heap \<Rightarrow> addr \<Rightarrow> string list" where
  "for_in h a = for_in_from h (chain h a)"

text \<open>
  Property write \<^verbatim>\<open>o[k] = v\<close> and \<^verbatim>\<open>delete o[k]\<close>. All properties are plain writable data
  properties, so a write always creates or replaces an own property of \<open>o\<close>, also when
  a prototype has the key, and a delete removes an own property only. The keys are compact
  keys of RDF terms; the one name that an assignment treats differently, \<^verbatim>\<open>__proto__\<close>, is
  not a compact key.
\<close>

definition set_prop :: "heap \<Rightarrow> addr \<Rightarrow> string \<Rightarrow> val \<Rightarrow> heap" where
  "set_prop h a k v = h[a := (h ! a)\<lparr>props := AList.update k v (props (h ! a))\<rparr>]"

definition delete_prop :: "heap \<Rightarrow> addr \<Rightarrow> string \<Rightarrow> heap" where
  "delete_prop h a k = h[a := (h ! a)\<lparr>props := AList.delete k (props (h ! a))\<rparr>]"

definition set_sym :: "heap \<Rightarrow> addr \<Rightarrow> sym \<Rightarrow> val \<Rightarrow> heap" where
  "set_sym h a s v = h[a := (h ! a)\<lparr>syms := AList.update s v (syms (h ! a))\<rparr>]"

section \<open>The overlay engine\<close>

text \<open>
  \<^verbatim>\<open>overlayTree(n_keys=0, n_quads=0)\<close>: an object literal with the two counters. A
  default applies when the argument is \<^verbatim>\<open>undefined\<close>. The result is the new address and
  the new heap.
\<close>

definition default_arg :: "val \<Rightarrow> val \<Rightarrow> val" where
  "default_arg d v = (if v = Undefined then d else v)"

definition overlayTree :: "heap \<Rightarrow> val \<Rightarrow> val \<Rightarrow> addr \<times> heap" where
  "overlayTree h n_keys n_quads =
     (length h,
      alloc h \<lparr>props = [],
               syms = [(KEYS, default_arg (Num 0) n_keys), (QUADS, default_arg (Num 0) n_quads)],
               proto = None\<rparr>)"

text \<open>
  \<^verbatim>\<open>overlay(hcw_src)\<close>: \<^verbatim>\<open>Object.create(hcw_src)\<close>, then \<^verbatim>\<open>hcw_src[$_BURIED] = 1\<close>, then
  \<^verbatim>\<open>hcw_dst[$_OVERLAY] = 1\<close>. An address outside the heap names no object; the model
  answers \<open>Inl NotAnObject\<close> there.
\<close>

definition overlay :: "heap \<Rightarrow> addr \<Rightarrow> error + addr \<times> heap" where
  "overlay h hcw_src =
     (if hcw_src < length h
      then let hcw_dst = length h;
               h1 = alloc h \<lparr>props = [], syms = [], proto = Some hcw_src\<rparr>;
               h2 = set_sym h1 hcw_src BURIED (Num 1);
               h3 = set_sym h2 hcw_dst OVERLAY (Num 1)
           in Inr (hcw_dst, h3)
      else Inl NotAnObject)"

text \<open>
  \<^verbatim>\<open>trace(hcw_overlay)\<close>: a new empty object \<^verbatim>\<open>{}\<close>, one write per key of the
  \<^verbatim>\<open>for..in\<close> loop, each reading the overlay in the heap as it is at that moment, then the
  two counters.
\<close>

definition trace_step :: "addr \<Rightarrow> addr \<Rightarrow> string \<Rightarrow> heap \<Rightarrow> heap" where
  "trace_step hcw_overlay hcw_dst sv1_key h = set_prop h hcw_dst sv1_key (get h hcw_overlay sv1_key)"

definition trace :: "heap \<Rightarrow> addr \<Rightarrow> error + addr \<times> heap" where
  "trace h hcw_overlay =
     (if hcw_overlay < length h
      then let hcw_dst = length h;
               h1 = alloc h \<lparr>props = [], syms = [], proto = None\<rparr>;
               h2 = fold (trace_step hcw_overlay hcw_dst) (for_in h1 hcw_overlay) h1;
               h3 = set_sym h2 hcw_dst KEYS (get_sym h2 hcw_overlay KEYS);
               h4 = set_sym h3 hcw_dst QUADS (get_sym h3 hcw_overlay QUADS)
           in Inr (hcw_dst, h4)
      else Inl NotAnObject)"

section \<open>The dataset facade\<close>

text \<open>
  The fields of \<^verbatim>\<open>GenericQuadTree\<close>. The prefix map is opaque to this class: it is only
  handed to the key codec. \<open>hc3_trips\<close> holds whatever value the constructor read. The
  default \<^verbatim>\<open>b_prefixed=false\<close> of the constructor is the argument \<open>False\<close> here.
\<close>

record 'p dataset =
  h_prefixes :: 'p
  hc4_quads :: addr
  hc3_trips :: val
  b_prefixed :: bool

definition constructor :: "heap \<Rightarrow> addr \<Rightarrow> 'p \<Rightarrow> bool \<Rightarrow> 'p dataset" where
  "constructor h hc4 pm b =
     \<lparr>h_prefixes = pm, hc4_quads = hc4, hc3_trips = get h hc4 ''*'', b_prefixed = b\<rparr>"

definition size_ds :: "heap \<Rightarrow> 'p dataset \<Rightarrow> val" where
  "size_ds h ds = get_sym h (hc4_quads ds) QUADS"

text \<open>
  A JavaScript \<^verbatim>\<open>Set\<close> of strings in insertion order: \<open>set_add\<close> is \<^verbatim>\<open>Set.prototype.add\<close>,
  \<open>new_Set\<close> is \<^verbatim>\<open>new Set(iterable)\<close>, and the length of the list is \<^verbatim>\<open>.size\<close>.
\<close>

definition set_add :: "'a \<Rightarrow> 'a list \<Rightarrow> 'a list" where
  "set_add x xs = (if x \<in> set xs then xs else xs @ [x])"

definition new_Set :: "'a list \<Rightarrow> 'a list" where
  "new_Set xs = fold set_add xs []"

text \<open>
  \<^verbatim>\<open>for..in\<close> over a value that need not be a node: only an object of the heap has
  enumerable keys; \<^verbatim>\<open>undefined\<close>, a number and a \<^verbatim>\<open>Set\<close> give no iteration.
\<close>

definition for_in_val :: "heap \<Rightarrow> val \<Rightarrow> string list" where
  "for_in_val h v = (case v of Ref a \<Rightarrow> for_in h a | _ \<Rightarrow> [])"

text \<open>
  The enumeration methods write to no object: each takes the heap and gives it back with
  its result, statement by statement as in the source.
\<close>

definition total_distinct_graphs :: "heap \<Rightarrow> 'p dataset \<Rightarrow> string list \<times> heap" where
  "total_distinct_graphs h ds = (fold set_add (for_in h (hc4_quads ds)) [], h)"

definition total_distinct_subjects :: "heap \<Rightarrow> 'p dataset \<Rightarrow> string list \<times> heap" where
  "total_distinct_subjects h ds =
     (fold (\<lambda>sc1_graph as_subjects.
              fold set_add (for_in_val h (get h (hc4_quads ds) sc1_graph)) as_subjects)
           (for_in h (hc4_quads ds)) [],
      h)"

definition distinctGraphCount :: "heap \<Rightarrow> 'p dataset \<Rightarrow> val" where
  "distinctGraphCount h ds = get_sym h (hc4_quads ds) KEYS"

text \<open>
  \<^verbatim>\<open>Object.keys(v)\<close>: the own enumerable string keys of an object, a \<^verbatim>\<open>TypeError\<close> on
  \<^verbatim>\<open>undefined\<close>, nothing for a number or a \<^verbatim>\<open>Set\<close>.
\<close>

definition object_keys :: "heap \<Rightarrow> val \<Rightarrow> error + string list" where
  "object_keys h v =
     (case v of Undefined \<Rightarrow> Inl TypeError | Ref a \<Rightarrow> Inr (own_keys h a) | _ \<Rightarrow> Inr [])"

text \<open>The loop of the multi-graph branch of \<^verbatim>\<open>distinctSubjectCount\<close>.\<close>

fun union_keys :: "heap \<Rightarrow> addr \<Rightarrow> string list \<Rightarrow> string list \<Rightarrow> error + string list" where
  "union_keys h hc4 [] as_subjects = Inr as_subjects"
| "union_keys h hc4 (sc1_graph # gs) as_subjects =
     (case object_keys h (get h hc4 sc1_graph) of
        Inl e \<Rightarrow> Inl e
      | Inr ks \<Rightarrow> union_keys h hc4 gs (new_Set (as_subjects @ ks)))"

text \<open>
  \<^verbatim>\<open>distinctSubjectCount\<close>: \<^verbatim>\<open>1 === this._hc4_quads[$_KEYS]\<close> holds for the number 1 only.
  Reading \<^verbatim>\<open>[$_KEYS]\<close> of \<^verbatim>\<open>undefined\<close> is a \<^verbatim>\<open>TypeError\<close>; a number or a \<^verbatim>\<open>Set\<close> has no such
  property.
\<close>

definition distinctSubjectCount :: "heap \<Rightarrow> 'p dataset \<Rightarrow> error + val" where
  "distinctSubjectCount h ds =
     (if get_sym h (hc4_quads ds) KEYS = Num 1
      then (case hc3_trips ds of
              Ref t \<Rightarrow> Inr (get_sym h t KEYS)
            | Undefined \<Rightarrow> Inl TypeError
            | _ \<Rightarrow> Inr Undefined)
      else (case union_keys h (hc4_quads ds) (for_in h (hc4_quads ds)) [] of
              Inl e \<Rightarrow> Inl e
            | Inr as_subjects \<Rightarrow> Inr (Num (int (length as_subjects)))))"

definition distinctC1Graphs :: "heap \<Rightarrow> 'p dataset \<Rightarrow> string list \<times> heap" where
  "distinctC1Graphs h ds = total_distinct_graphs h ds"

definition distinctC1Subjects :: "heap \<Rightarrow> 'p dataset \<Rightarrow> string list \<times> heap" where
  "distinctC1Subjects h ds = total_distinct_subjects h ds"

text \<open>
  The generators \<^verbatim>\<open>distinctGraphs\<close> and \<^verbatim>\<open>distinctSubjects\<close>, as the list of what they yield.
  The codec functions \<^verbatim>\<open>graphFromC1\<close> and \<^verbatim>\<open>subjectFromC1\<close> belong to another package and are
  parameters here.
\<close>

definition distinctGraphs ::
  "(string \<Rightarrow> 'p \<Rightarrow> 't) \<Rightarrow> heap \<Rightarrow> 'p dataset \<Rightarrow> 't list \<times> heap" where
  "distinctGraphs graphFromC1 h ds =
     (case distinctC1Graphs h ds of
        (as_graphs, h') \<Rightarrow> (map (\<lambda>sc1_graph. graphFromC1 sc1_graph (h_prefixes ds)) as_graphs, h'))"

definition distinctSubjects ::
  "(string \<Rightarrow> 'p \<Rightarrow> 't) \<Rightarrow> heap \<Rightarrow> 'p dataset \<Rightarrow> 't list \<times> heap" where
  "distinctSubjects subjectFromC1 h ds =
     (case distinctC1Subjects h ds of
        (as_subjects, h') \<Rightarrow>
          (map (\<lambda>sc1_subject. subjectFromC1 sc1_subject (h_prefixes ds)) as_subjects, h'))"

section \<open>Writes on one node\<close>

text \<open>
  What a caller can do to the own properties of one node \<open>d\<close> after it has been derived:
  set or overwrite a string key (\<^verbatim>\<open>d[k] = v\<close>), remove one (\<^verbatim>\<open>delete d[k]\<close>), or write one
  of its symbol-keyed properties, a counter for instance (\<^verbatim>\<open>d[$_KEYS] = v\<close>). A sequence of
  such writes is run with \<open>fold (mutate d)\<close>.
\<close>

datatype mutation = SetKey string val | DeleteKey string | SetSym sym val

fun mutate :: "addr \<Rightarrow> mutation \<Rightarrow> heap \<Rightarrow> heap" where
  "mutate d (SetKey k v) h = set_prop h d k v"
| "mutate d (DeleteKey k) h = delete_prop h d k"
| "mutate d (SetSym s v) h = set_sym h d s v"

section \<open>The counter invariant of a node\<close>

text \<open>
  The effective key set of a node: its own keys and the keys of every object of its
  delegation chain. \<open>keys_counted\<close> says that the \<^verbatim>\<open>$_KEYS\<close> counter read on the node is the
  number of its effective keys, which is what the counter is documented to cache
  (\<^verbatim>\<open>Caches the number of 'keys' stored in the tree\<close>).
\<close>

definition effective_keys :: "heap \<Rightarrow> addr \<Rightarrow> string set" where
  "effective_keys h a = (\<Union>b \<in> set (chain h a). set (own_keys h b))"

definition keys_counted :: "heap \<Rightarrow> addr \<Rightarrow> bool" where
  "keys_counted h a = (get_sym h a KEYS = Num (int (card (effective_keys h a))))"

section \<open>The basic quad tree: adding and deleting quads\<close>

text \<open>
  The classes that add and delete quads are not among the sources at hand; the types of
  their trees (\<^verbatim>\<open>IBasicQuadTree.QuadsHash\<close>, \<^verbatim>\<open>TriplesHash\<close>, \<^verbatim>\<open>ProbsHash\<close>) are. The
  definitions of this section follow the specification. A tree that is built from the
  empty tree by \<^verbatim>\<open>add\<close> and \<^verbatim>\<open>delete\<close> alone never has a node derived from it, so no node
  is sealed, the materialize step of \<^verbatim>\<open>add\<close> never runs and every key of a node is an own
  key: such a tree is a value.
\<close>

text \<open>
  Modelled from the spec: the Countable Node of sections 3 and 4.1 (the tree classes are
  missing), a mapping from compact keys to children with the two running counters
  \<open>keyCount\<close> and \<open>quadCount\<close>. The four levels are graphs, subjects, predicates and, at
  the bottom, the set of object keys, kept in insertion order.
\<close>

record 'c cnode =
  entries :: "(string \<times> 'c) list"
  keyCount :: int
  quadCount :: int

type_synonym object_set = "string list"
type_synonym probs_hash = "object_set cnode"
type_synonym triples_hash = "probs_hash cnode"
type_synonym quads_hash = "triples_hash cnode"

text \<open>A quad in the argument order of \<^verbatim>\<open>add\<close>: graph, subject, predicate, object.\<close>

type_synonym quad = "string \<times> string \<times> string \<times> string"

text \<open>
  Modelled from the spec: a node created empty (section 3, lifecycle; the tree classes are
  missing).
\<close>

definition empty_node :: "'c cnode" where
  "empty_node = \<lparr>entries = [], keyCount = 0, quadCount = 0\<rparr>"

text \<open>
  Modelled from the spec: the empty dataset (the \<^verbatim>\<open>empty\<close> constructor is missing), in
  which the default graph is present under the reserved key \<^verbatim>\<open>'*'\<close>.
\<close>

definition empty_tree :: quads_hash where
  "empty_tree = \<lparr>entries = [(''*'', empty_node)], keyCount = 1, quadCount = 0\<rparr>"

text \<open>
  Modelled from the spec: "resolve/create" of section 4.3 (\<^verbatim>\<open>add\<close> is missing): the child
  under a key, or a new one when the key is absent.
\<close>

definition resolve :: "'c cnode \<Rightarrow> string \<Rightarrow> 'c \<Rightarrow> 'c" where
  "resolve n k fresh = (case map_of (entries n) k of Some c \<Rightarrow> c | None \<Rightarrow> fresh)"

text \<open>
  Modelled from the spec: the counter update of \<^verbatim>\<open>add\<close> at one level (section 4.3, \<^verbatim>\<open>add\<close> is
  missing): store the child, increment \<open>quadCount\<close>, and increment \<open>keyCount\<close> where a new
  key was introduced.
\<close>

definition put_child :: "'c cnode \<Rightarrow> string \<Rightarrow> 'c \<Rightarrow> 'c cnode" where
  "put_child n k c =
     n\<lparr>entries := AList.update k c (entries n),
       keyCount := (if map_of (entries n) k = None then keyCount n + 1 else keyCount n),
       quadCount := quadCount n + 1\<rparr>"

text \<open>
  Modelled from the spec: the counter update of \<^verbatim>\<open>delete\<close> at one level (section 4.3,
  \<^verbatim>\<open>delete\<close> is missing): when the child has become empty its key is removed from the
  parent and \<open>keyCount\<close> is decremented; \<open>quadCount\<close> is decremented in both cases.
\<close>

definition drop_child :: "'c cnode \<Rightarrow> string \<Rightarrow> 'c \<Rightarrow> bool \<Rightarrow> 'c cnode" where
  "drop_child n k c gone =
     (if gone
      then n\<lparr>entries := AList.delete k (entries n),
             keyCount := keyCount n - 1,
             quadCount := quadCount n - 1\<rparr>
      else n\<lparr>entries := AList.update k c (entries n),
             quadCount := quadCount n - 1\<rparr>)"

text \<open>
  Modelled from the spec: \<^verbatim>\<open>add(graph, subject, predicate, object)\<close> of section 4.3 (the
  method is missing). Resolve or create the subject tree under the graph and the predicate
  node under the subject, insert the object if absent. An object already present is a
  no-op, reported by \<open>False\<close>.
\<close>

definition add_quad :: "quad \<Rightarrow> quads_hash \<Rightarrow> bool \<times> quads_hash" where
  "add_quad q hc4 =
     (case q of (g, s, p, ob) \<Rightarrow>
        let hc3 = resolve hc4 g empty_node;
            hc2 = resolve hc3 s empty_node;
            as_objects = resolve hc2 p []
        in if ob \<in> set as_objects then (False, hc4)
           else (True,
                 put_child hc4 g (put_child hc3 s (put_child hc2 p (as_objects @ [ob])))))"

text \<open>
  Modelled from the spec: \<^verbatim>\<open>delete(graph, subject, predicate, object)\<close> of section 4.3 (the
  method is missing). A path that does not exist is a no-op reported by \<open>False\<close>. Otherwise
  the object is removed, and each node that has become empty is removed from its parent;
  the default graph stays under its reserved key.
\<close>

definition delete_quad :: "quad \<Rightarrow> quads_hash \<Rightarrow> bool \<times> quads_hash" where
  "delete_quad q hc4 =
     (case q of (g, s, p, ob) \<Rightarrow>
        (case map_of (entries hc4) g of
           None \<Rightarrow> (False, hc4)
         | Some hc3 \<Rightarrow>
        (case map_of (entries hc3) s of
           None \<Rightarrow> (False, hc4)
         | Some hc2 \<Rightarrow>
        (case map_of (entries hc2) p of
           None \<Rightarrow> (False, hc4)
         | Some as_objects \<Rightarrow>
             if ob \<notin> set as_objects then (False, hc4)
             else let as_objects' = remove1 ob as_objects;
                      hc2' = drop_child hc2 p as_objects' (as_objects' = []);
                      hc3' = drop_child hc3 s hc2' (entries hc2' = []);
                      hc4' = drop_child hc4 g hc3' (entries hc3' = [] \<and> g \<noteq> ''*'')
                  in (True, hc4')))))"

text \<open>
  Modelled from the spec: a sequence of \<^verbatim>\<open>add\<close>/\<^verbatim>\<open>delete\<close> operations run from the empty
  tree (section 8; the methods are missing).
\<close>

datatype operation = Add quad | Delete quad

fun apply_op :: "operation \<Rightarrow> quads_hash \<Rightarrow> quads_hash" where
  "apply_op (Add q) hc4 = snd (add_quad q hc4)"
| "apply_op (Delete q) hc4 = snd (delete_quad q hc4)"

definition run :: "operation list \<Rightarrow> quads_hash" where
  "run ops = fold apply_op ops empty_tree"

text \<open>
  Modelled from the spec: the full traversal of the four levels that yields every stored
  quad (section 4.5; the iterator is abstract in \<^verbatim>\<open>GenericQuadTree\<close>).
\<close>

definition iterate_quads :: "quads_hash \<Rightarrow> quad list" where
  "iterate_quads hc4 =
     concat (map (\<lambda>(g, hc3).
       concat (map (\<lambda>(s, hc2).
         concat (map (\<lambda>(p, as_objects). map (\<lambda>ob. (g, s, p, ob)) as_objects)
                     (entries hc2)))
                   (entries hc3)))
                 (entries hc4))"

text \<open>
  Modelled from the spec: the object set reached by the path of a graph, a subject and a
  predicate key, empty where the path does not exist (the traversal of section 4.3; the
  tree classes are missing).
\<close>

definition objects_at :: "quads_hash \<Rightarrow> string \<Rightarrow> string \<Rightarrow> string \<Rightarrow> object_set" where
  "objects_at hc4 g s p = resolve (resolve (resolve hc4 g empty_node) s empty_node) p []"

text \<open>
  Modelled from the spec: the set of quads that a sequence of operations leaves stored
  (section 8: \<^verbatim>\<open>add\<close> of a stored quad and \<^verbatim>\<open>delete\<close> of an absent one change nothing).
\<close>

fun stored_after :: "operation \<Rightarrow> quad set \<Rightarrow> quad set" where
  "stored_after (Add q) Q = insert q Q"
| "stored_after (Delete q) Q = Q - {q}"

definition stored :: "operation list \<Rightarrow> quad set" where
  "stored ops = fold stored_after ops {}"

text \<open>
  Modelled from the spec: the counter invariant of a Countable Node (section 3): keys are
  distinct, \<open>keyCount\<close> is their number, \<open>quadCount\<close> is the sum of the children's quad
  counts, and every child satisfies its own invariant. At the leaf level the quad count of
  a child is the size of the object set.
\<close>

definition node_ok :: "('c \<Rightarrow> int) \<Rightarrow> ('c \<Rightarrow> bool) \<Rightarrow> 'c cnode \<Rightarrow> bool" where
  "node_ok child_quads child_ok n =
     (distinct (map fst (entries n))
      \<and> keyCount n = int (length (entries n))
      \<and> quadCount n = sum_list (map (\<lambda>(k, c). child_quads c) (entries n))
      \<and> (\<forall>(k, c) \<in> set (entries n). child_ok c))"

definition probs_ok :: "probs_hash \<Rightarrow> bool" where
  "probs_ok = node_ok (\<lambda>as_objects. int (length as_objects)) distinct"

definition triples_ok :: "triples_hash \<Rightarrow> bool" where
  "triples_ok = node_ok quadCount probs_ok"

definition quads_ok :: "quads_hash \<Rightarrow> bool" where
  "quads_ok = node_ok quadCount triples_ok"

text \<open>
  The \<^verbatim>\<open>size\<close> accessor on a tree that is a value: the quad counter of the root, as
  \<open>size_ds\<close> reads it from the heap.
\<close>

definition size_tree :: "quads_hash \<Rightarrow> int" where
  "size_tree hc4 = quadCount hc4"

text \<open>
  The tree as the objects that the types \<^verbatim>\<open>IBasicQuadTree.QuadsHash\<close>, \<^verbatim>\<open>TriplesHash\<close> and
  \<^verbatim>\<open>ProbsHash\<close> describe: one object for each node, with a string-keyed property for each
  entry (a reference to the child node, or the \<^verbatim>\<open>Set\<close> of objects at the bottom) and the
  two counters under \<^verbatim>\<open>$_KEYS\<close> and \<^verbatim>\<open>$_QUADS\<close>. \<open>store_quads\<close> allocates the children before
  the node and returns the address of the root.
\<close>

definition node_obj :: "(string \<times> val) list \<Rightarrow> 'c cnode \<Rightarrow> obj" where
  "node_obj ps n =
     \<lparr>props = ps, syms = [(KEYS, Num (keyCount n)), (QUADS, Num (quadCount n))], proto = None\<rparr>"

definition store_probs :: "heap \<Rightarrow> probs_hash \<Rightarrow> addr \<times> heap" where
  "store_probs h hc2 =
     (length h, alloc h (node_obj (map (\<lambda>(p, as_objects). (p, ObjSet as_objects)) (entries hc2)) hc2))"

fun store_children ::
  "(heap \<Rightarrow> 'c \<Rightarrow> addr \<times> heap) \<Rightarrow> heap \<Rightarrow> (string \<times> 'c) list \<Rightarrow> (string \<times> val) list \<times> heap" where
  "store_children st h [] = ([], h)"
| "store_children st h ((k, c) # kcs) =
     (case st h c of (a, h1) \<Rightarrow>
        (case store_children st h1 kcs of (ps, h2) \<Rightarrow> ((k, Ref a) # ps, h2)))"

definition store_node :: "(heap \<Rightarrow> 'c \<Rightarrow> addr \<times> heap) \<Rightarrow> heap \<Rightarrow> 'c cnode \<Rightarrow> addr \<times> heap" where
  "store_node st h n =
     (case store_children st h (entries n) of (ps, h1) \<Rightarrow> (length h1, alloc h1 (node_obj ps n)))"

definition store_triples :: "heap \<Rightarrow> triples_hash \<Rightarrow> addr \<times> heap" where
  "store_triples = store_node store_probs"

definition store_quads :: "heap \<Rightarrow> quads_hash \<Rightarrow> addr \<times> heap" where
  "store_quads = store_node store_triples"

text \<open>The dataset constructed over the stored tree, in a heap that holds nothing else.\<close>

definition dataset_of :: "quads_hash \<Rightarrow> heap \<times> unit dataset" where
  "dataset_of hc4 =
     (case store_quads [] hc4 of (r, h) \<Rightarrow> (h, constructor h r () False))"





section \<open>Example heaps\<close>

text \<open>
  A predicate-level node with two keys that has been overlaid (address 0), and its overlay
  (address 1), which shadows \<open>p2\<close> and adds \<open>p3\<close> of its own.
\<close>

definition ex_heap :: heap where
  "ex_heap =
     [\<lparr>props = [(''p1'', ObjSet [''a'']), (''p2'', ObjSet [''b''])],
       syms = [(KEYS, Num 2), (QUADS, Num 2), (BURIED, Num 1)],
       proto = None\<rparr>,
      \<lparr>props = [(''p2'', ObjSet [''c'']), (''p3'', ObjSet [''d''])],
       syms = [(OVERLAY, Num 1), (KEYS, Num 3), (QUADS, Num 3)],
       proto = Some 0\<rparr>]"

text \<open>
  A codec that leaves a key as it is, to run the generators on examples.
\<close>

definition plain_codec :: "string \<Rightarrow> unit \<Rightarrow> string" where
  "plain_codec sc1 pm = sc1"

text \<open>
  The root \<^verbatim>\<open>overlayTree()\<close> in an empty heap, and the dataset constructed over it.
\<close>

definition bare_root :: "addr \<times> heap" where
  "bare_root = overlayTree [] Undefined Undefined"

definition bare_ds :: "unit dataset" where
  "bare_ds = constructor (snd bare_root) (fst bare_root) () False"

text \<open>
  A dataset with two graphs. Address 0 is the predicate node of subject \<open>s1\<close>, address 1 a
  graph node with that one subject, which has been overlaid; address 2 is its overlay, as
  \<^verbatim>\<open>overlay\<close> returns it, and is the graph \<open>g\<close> of the root. Address 3 is the empty default
  graph and address 4 the root.
\<close>

definition two_graph_heap :: heap where
  "two_graph_heap =
     [\<lparr>props = [(''p1'', ObjSet [''o1''])], syms = [(KEYS, Num 1), (QUADS, Num 1)], proto = None\<rparr>,
      \<lparr>props = [(''s1'', Ref 0)], syms = [(KEYS, Num 1), (QUADS, Num 1), (BURIED, Num 1)],
       proto = None\<rparr>,
      \<lparr>props = [], syms = [(OVERLAY, Num 1)], proto = Some 1\<rparr>,
      \<lparr>props = [], syms = [(KEYS, Num 0), (QUADS, Num 0)], proto = None\<rparr>,
      \<lparr>props = [(''*'', Ref 3), (''g'', Ref 2)], syms = [(KEYS, Num 2), (QUADS, Num 1)],
       proto = None\<rparr>]"

text \<open>
  The first two objects of that heap before the graph node at address 1 was overlaid:
  \<^verbatim>\<open>overlay\<close> of address 1 in this heap gives the first three objects of \<open>two_graph_heap\<close>.
\<close>

definition two_graph_base :: heap where
  "two_graph_base =
     [\<lparr>props = [(''p1'', ObjSet [''o1''])], syms = [(KEYS, Num 1), (QUADS, Num 1)], proto = None\<rparr>,
      \<lparr>props = [(''s1'', Ref 0)], syms = [(KEYS, Num 1), (QUADS, Num 1)], proto = None\<rparr>]"

definition two_graph_ds :: "unit dataset" where
  "two_graph_ds = constructor two_graph_heap 4 () False"

text \<open>
  A dataset whose root is an overlay. Root \<open>A\<close> (address 3) has the default graph
  (address 2, empty) and graph \<open>g1\<close> (address 1, one subject whose predicate node is at
  address 0). Root \<open>B\<close> (address 4) is an overlay of \<open>A\<close> with one graph of its own,
  \<open>g2\<close> (address 6, predicate node at address 5).
\<close>

definition overlay_root_heap :: heap where
  "overlay_root_heap =
     [\<lparr>props = [(''p1'', ObjSet [''o1''])], syms = [(KEYS, Num 1), (QUADS, Num 1)], proto = None\<rparr>,
      \<lparr>props = [(''s1'', Ref 0)], syms = [(KEYS, Num 1), (QUADS, Num 1)], proto = None\<rparr>,
      \<lparr>props = [], syms = [(KEYS, Num 0), (QUADS, Num 0)], proto = None\<rparr>,
      \<lparr>props = [(''*'', Ref 2), (''g1'', Ref 1)],
       syms = [(KEYS, Num 2), (QUADS, Num 1), (BURIED, Num 1)], proto = None\<rparr>,
      \<lparr>props = [(''g2'', Ref 6)], syms = [(OVERLAY, Num 1), (KEYS, Num 3), (QUADS, Num 2)],
       proto = Some 3\<rparr>,
      \<lparr>props = [(''p1'', ObjSet [''o2''])], syms = [(KEYS, Num 1), (QUADS, Num 1)], proto = None\<rparr>,
      \<lparr>props = [(''s1'', Ref 5)], syms = [(KEYS, Num 1), (QUADS, Num 1)], proto = None\<rparr>]"

definition overlay_root_ds :: "unit dataset" where
  "overlay_root_ds = constructor overlay_root_heap 4 () False"

text \<open>
  A sequence of operations: two quads are added, one of them twice, a third goes into a
  named graph; then one stored quad and one that was never stored are deleted.
\<close>

definition ex_ops :: "operation list" where
  "ex_ops =
     [Add (''*'', ''s1'', ''p1'', ''o1''),
      Add (''*'', ''s1'', ''p1'', ''o2''),
      Add (''*'', ''s1'', ''p1'', ''o1''),
      Add (''g'', ''s2'', ''p1'', ''o1''),
      Delete (''*'', ''s1'', ''p1'', ''o1''),
      Delete (''g'', ''s9'', ''p1'', ''o1'')]"

section \<open>Reading and writing the heap\<close>

lemma chain_bound: "b \<in> set (chain h a) \<Longrightarrow> b \<le> a \<and> b < length h"
proof (induction h a rule: chain.induct)
  case (1 h a)
  from "1.prems" have mem: "b \<in> set (if a < length h
      then a # (case proto (h ! a) of
                  None \<Rightarrow> []
                | Some p \<Rightarrow> if p < a then chain h p else [])
      else [])" by (subst (asm) chain.simps) simp
  show ?case
  proof (cases "b = a")
    case True
    with mem show ?thesis by (auto split: if_splits)
  next
    case False
    with mem obtain p where "a < length h" "proto (h ! a) = Some p" "p < a" "b \<in> set (chain h p)"
      by (cases "proto (h ! a)") (auto split: if_splits)
    with "1.IH"[of p] show ?thesis by fastforce
  qed
qed

lemma chain_cong:
  "length h' = length h \<Longrightarrow> (\<forall>b \<le> a. b < length h \<longrightarrow> proto (h' ! b) = proto (h ! b))
    \<Longrightarrow> chain h' a = chain h a"
proof (induction h a rule: chain.induct)
  case (1 h a)
  show ?case
  proof (cases "a < length h")
    case False
    with 1 show ?thesis by (simp add: chain.simps)
  next
    case True
    show ?thesis
    proof (cases "proto (h ! a)")
      case None
      with True 1 show ?thesis by (simp add: chain.simps[of h' a] chain.simps[of h a])
    next
      case (Some p)
      show ?thesis
      proof (cases "p < a")
        case False
        with True Some 1 show ?thesis by (simp add: chain.simps[of h' a] chain.simps[of h a])
      next
        case pa: True
        have "chain h' p = chain h p"
          using "1.IH"[OF True Some pa] "1.prems" pa by simp
        with True Some 1 pa show ?thesis by (simp add: chain.simps[of h' a] chain.simps[of h a])
      qed
    qed
  qed
qed

lemma chain_alloc: "a < length h \<Longrightarrow> chain (alloc h ob) a = chain h a"
proof (induction h a rule: chain.induct)
  case (1 h a)
  show ?case
    using 1 by (subst chain.simps, subst (2) chain.simps)
      (auto simp: alloc_def nth_append split: option.splits)
qed

lemma nth_upd_proto:
  "b < length h \<Longrightarrow> proto (f (h ! d)) = proto (h ! d) \<Longrightarrow> proto (h[d := f (h ! d)] ! b) = proto (h ! b)"
  by (cases "d = b") simp_all

lemma chain_set_prop [simp]: "chain (set_prop h d k v) a = chain h a"
  unfolding set_prop_def
  by (rule chain_cong) (simp_all add: nth_upd_proto[where f="\<lambda>ob. ob\<lparr>props := AList.update k v (props ob)\<rparr>"])

lemma chain_delete_prop [simp]: "chain (delete_prop h d k) a = chain h a"
  unfolding delete_prop_def
  by (rule chain_cong) (simp_all add: nth_upd_proto[where f="\<lambda>ob. ob\<lparr>props := AList.delete k (props ob)\<rparr>"])

lemma chain_set_sym [simp]: "chain (set_sym h d s v) a = chain h a"
  unfolding set_sym_def
  by (rule chain_cong) (simp_all add: nth_upd_proto[where f="\<lambda>ob. ob\<lparr>syms := AList.update s v (syms ob)\<rparr>"])


lemma chain_append: "a < length h \<Longrightarrow> chain (h @ hs) a = chain h a"
proof (induction h a rule: chain.induct)
  case (1 h a)
  show ?case
    using 1 by (subst chain.simps, subst (2) chain.simps)
      (auto simp: nth_append split: option.splits)
qed

lemma get_from_append:
  "\<forall>b \<in> set as. b < length h \<Longrightarrow> get_from (h @ hs) as k = get_from h as k"
  by (induction as) (auto simp: nth_append split: option.splits)

lemma get_sym_from_append:
  "\<forall>b \<in> set as. b < length h \<Longrightarrow> get_sym_from (h @ hs) as s = get_sym_from h as s"
  by (induction as) (auto simp: nth_append split: option.splits)

lemma for_in_from_append:
  "\<forall>b \<in> set as. b < length h \<Longrightarrow> for_in_from (h @ hs) as = for_in_from h as"
  by (induction as) (auto simp: nth_append own_keys_def)

lemma get_append: "a < length h \<Longrightarrow> get (h @ hs) a k = get h a k"
  by (simp add: get_def chain_append get_from_append chain_bound)

lemma get_sym_append: "a < length h \<Longrightarrow> get_sym (h @ hs) a s = get_sym h a s"
  by (simp add: get_sym_def chain_append get_sym_from_append chain_bound)

lemma for_in_append: "a < length h \<Longrightarrow> for_in (h @ hs) a = for_in h a"
  by (simp add: for_in_def chain_append for_in_from_append chain_bound)

lemma set_prop_last:
  "set_prop (h @ [ob]) (length h) k v = h @ [ob\<lparr>props := AList.update k v (props ob)\<rparr>]"
  by (simp add: set_prop_def)

lemma set_sym_last:
  "set_sym (h @ [ob]) (length h) s v = h @ [ob\<lparr>syms := AList.update s v (syms ob)\<rparr>]"
  by (simp add: set_sym_def)

lemma delete_prop_last:
  "delete_prop (h @ [ob]) (length h) k = h @ [ob\<lparr>props := AList.delete k (props ob)\<rparr>]"
  by (simp add: delete_prop_def)

lemma trace_loop:
  "n < length h \<Longrightarrow>
   fold (trace_step n (length h)) ks (h @ [ob]) =
   h @ [ob\<lparr>props := fold (\<lambda>k. AList.update k (get h n k)) ks (props ob)\<rparr>]"
proof (induction ks arbitrary: ob)
  case Nil
  show ?case by simp
next
  case (Cons k ks)
  have "trace_step n (length h) k (h @ [ob]) =
        h @ [ob\<lparr>props := AList.update k (get h n k) (props ob)\<rparr>]"
    using Cons.prems by (simp add: trace_step_def get_append set_prop_last)
  then show ?case
    using Cons.IH[OF Cons.prems, of "ob\<lparr>props := AList.update k (get h n k) (props ob)\<rparr>"]
    by simp
qed

lemma trace_closed:
  "n < length h \<Longrightarrow>
   trace h n = Inr (length h,
     h @ [\<lparr>props = fold (\<lambda>k. AList.update k (get h n k)) (for_in h n) [],
           syms = [(KEYS, get_sym h n KEYS), (QUADS, get_sym h n QUADS)],
           proto = None\<rparr>])"
  by (simp add: trace_def Let_def alloc_def trace_loop for_in_append get_sym_append set_sym_last)

lemma overlay_closed:
  "src < length h \<Longrightarrow>
   overlay h src = Inr (length h,
     h[src := (h ! src)\<lparr>syms := AList.update BURIED (Num 1) (syms (h ! src))\<rparr>]
       @ [\<lparr>props = [], syms = [(OVERLAY, Num 1)], proto = Some src\<rparr>])"
  by (simp add: overlay_def Let_def alloc_def set_sym_def nth_append list_update_append)

lemma map_of_fold_update:
  "map_of (fold (\<lambda>k. AList.update k (f k)) ks ps) k =
     (if k \<in> set ks then Some (f k) else map_of ps k)"
  by (induction ks arbitrary: ps) (auto simp: update_conv')

lemma keys_fold_update:
  "fst ` set (fold (\<lambda>k. AList.update k (f k)) ks ps) = set ks \<union> fst ` set ps"
  by (induction ks arbitrary: ps) (auto simp: dom_update)

lemma for_in_from_set:
  "set (for_in_from h as) = (\<Union>b \<in> set as. set (own_keys h b))"
  by (induction as) auto

lemma get_from_absent:
  "k \<notin> set (for_in_from h as) \<Longrightarrow> get_from h as k = Undefined"
  by (induction as) (auto simp: own_keys_def split: option.splits dest: map_of_SomeD intro: rev_image_eqI)

lemma chain_last: "proto ob = None \<Longrightarrow> chain (h @ [ob]) (length h) = [length h]"
  by (subst chain.simps) simp


lemma get_last:
  "proto ob = None \<Longrightarrow>
   get (h @ [ob]) (length h) k = (case map_of (props ob) k of Some v \<Rightarrow> v | None \<Rightarrow> Undefined)"
  by (simp add: get_def chain_last split: option.splits)

lemma get_sym_last:
  "proto ob = None \<Longrightarrow>
   get_sym (h @ [ob]) (length h) s = (case map_of (syms ob) s of Some v \<Rightarrow> v | None \<Rightarrow> Undefined)"
  by (simp add: get_sym_def chain_last split: option.splits)

lemma for_in_last:
  "proto ob = None \<Longrightarrow> for_in (h @ [ob]) (length h) = map fst (props ob)"
  by (simp add: for_in_def chain_last own_keys_def)

lemma for_in_set: "set (for_in h a) = (\<Union>b \<in> set (chain h a). set (own_keys h b))"
  by (simp add: for_in_def for_in_from_set)

lemma get_absent: "k \<notin> set (for_in h a) \<Longrightarrow> get h a k = Undefined"
  by (simp add: for_in_def get_def get_from_absent)

lemma mutate_last:
  "\<exists>ob'. fold (mutate (length h0)) ms (h0 @ [ob]) = h0 @ [ob'] \<and> proto ob' = proto ob"
proof (induction ms arbitrary: ob)
  case Nil
  show ?case by simp
next
  case (Cons m ms)
  obtain ob1 where m1: "mutate (length h0) m (h0 @ [ob]) = h0 @ [ob1]" and p1: "proto ob1 = proto ob"
    by (cases m) (simp_all add: set_prop_last delete_prop_last set_sym_last)
  from Cons.IH[of ob1] m1 p1 show ?case by simp
qed

lemma chain_overlay_node:
  "proto ob = Some src \<Longrightarrow> src < length h0 \<Longrightarrow>
   chain (h0 @ [ob]) (length h0) = length h0 # chain h0 src"
  by (subst chain.simps) (simp add: chain_append)

lemma get_overlay_node:
  assumes "proto ob = Some src" "src < length h0"
  shows "get (h0 @ [ob]) (length h0) k =
           (case map_of (props ob) k of Some v \<Rightarrow> v | None \<Rightarrow> get (h0 @ [ob]) src k)"
proof -
  have "get_from (h0 @ [ob]) (chain h0 src) k = get (h0 @ [ob]) src k"
    using assms by (simp add: get_def chain_append)
  then show ?thesis
    using assms by (simp add: get_def chain_overlay_node split: option.splits)
qed

lemma get_sym_overlay_node:
  assumes "proto ob = Some src" "src < length h0"
  shows "get_sym (h0 @ [ob]) (length h0) s =
           (case map_of (syms ob) s of Some v \<Rightarrow> v | None \<Rightarrow> get_sym (h0 @ [ob]) src s)"
proof -
  have "get_sym_from (h0 @ [ob]) (chain h0 src) s = get_sym (h0 @ [ob]) src s"
    using assms by (simp add: get_sym_def chain_append)
  then show ?thesis
    using assms by (simp add: get_sym_def chain_overlay_node split: option.splits)
qed

lemma nth_set_sym:
  "props (set_sym h a s v ! b) = props (h ! b) \<and> proto (set_sym h a s v ! b) = proto (h ! b)"
proof (cases "a < length h")
  case True
  then show ?thesis by (cases "b = a") (simp_all add: set_sym_def)
next
  case False
  then show ?thesis by (simp add: set_sym_def list_update_beyond)
qed

lemma get_from_set_sym: "get_from (set_sym h a s v) as k = get_from h as k"
  by (induction as) (simp_all add: nth_set_sym cong: option.case_cong)

lemma for_in_from_set_sym: "for_in_from (set_sym h a s v) as = for_in_from h as"
  by (induction as) (simp_all add: nth_set_sym own_keys_def)

lemma get_set_sym: "get (set_sym h a s v) b k = get h b k"
  by (simp add: get_def get_from_set_sym)

lemma for_in_set_sym: "for_in (set_sym h a s v) b = for_in h b"
  by (simp add: for_in_def for_in_from_set_sym)

lemma map_of_syms_set_sym:
  "a < length h \<Longrightarrow>
   map_of (syms (set_sym h a s v ! b)) s' =
     (if b = a \<and> s' = s then Some v else map_of (syms (h ! b)) s')"
  by (cases "b = a") (simp_all add: set_sym_def update_conv')

lemma get_sym_from_set_sym_other:
  "a < length h \<Longrightarrow> s' \<noteq> s \<Longrightarrow> get_sym_from (set_sym h a s v) as s' = get_sym_from h as s'"
  by (induction as) (simp_all add: map_of_syms_set_sym cong: option.case_cong)

lemma get_sym_set_sym_other:
  "a < length h \<Longrightarrow> s' \<noteq> s \<Longrightarrow> get_sym (set_sym h a s v) b s' = get_sym h b s'"
  by (simp add: get_sym_def get_sym_from_set_sym_other)

lemma get_sym_set_sym_same:
  "a < length h \<Longrightarrow> get_sym (set_sym h a s v) a s = v"
  by (simp add: get_sym_def, subst chain.simps) (simp add: map_of_syms_set_sym)

lemma overlay_set_sym:
  "src < length h \<Longrightarrow>
   overlay h src = Inr (length h,
     set_sym h src BURIED (Num 1) @ [\<lparr>props = [], syms = [(OVERLAY, Num 1)], proto = Some src\<rparr>])"
  by (simp add: overlay_closed set_sym_def)

section \<open>Sets, enumeration and the key counter\<close>

lemma set_add_set [simp]: "set (set_add x xs) = insert x (set xs)"
  by (auto simp: set_add_def)

lemma set_add_distinct [simp]: "distinct xs \<Longrightarrow> distinct (set_add x xs)"
  by (simp add: set_add_def)

lemma fold_set_add_set [simp]: "set (fold set_add xs ys) = set xs \<union> set ys"
  by (induction xs arbitrary: ys) auto

lemma fold_set_add_distinct [simp]: "distinct ys \<Longrightarrow> distinct (fold set_add xs ys)"
  by (induction xs arbitrary: ys) auto

lemma new_Set_set [simp]: "set (new_Set xs) = set xs"
  by (simp add: new_Set_def)

lemma new_Set_distinct [simp]: "distinct (new_Set xs)"
  by (simp add: new_Set_def)


lemma effective_keys_for_in: "effective_keys h a = set (for_in h a)"
  by (simp add: effective_keys_def for_in_set)

lemma total_distinct_graphs_set:
  "set (fst (total_distinct_graphs h ds)) = effective_keys h (hc4_quads ds)"
  by (simp add: total_distinct_graphs_def effective_keys_for_in)

lemma fold_subjects_set:
  "set (fold (\<lambda>g as. fold set_add (f g) as) gs acc) = (\<Union>g \<in> set gs. set (f g)) \<union> set acc"
  by (induction gs arbitrary: acc) auto

lemma fold_subjects_distinct:
  "distinct acc \<Longrightarrow> distinct (fold (\<lambda>g as. fold set_add (f g) as) gs acc)"
  by (induction gs arbitrary: acc) auto

lemma for_in_from_owner:
  "k \<in> set (for_in_from h as) \<Longrightarrow>
   \<exists>b \<in> set as. map_of (props (h ! b)) k = Some (get_from h as k)"
proof (induction as)
  case Nil
  then show ?case by simp
next
  case (Cons a as)
  show ?case
  proof (cases "map_of (props (h ! a)) k")
    case (Some v)
    then show ?thesis by simp
  next
    case None
    then have "k \<notin> set (own_keys h a)"
      by (simp add: own_keys_def map_of_eq_None_iff)
    with Cons.prems have "k \<in> set (for_in_from h as)" by simp
    from Cons.IH[OF this] None show ?thesis by simp
  qed
qed

lemma keys_counted_overlayTree:
  "keys_counted (snd (overlayTree h Undefined Undefined)) (fst (overlayTree h Undefined Undefined))"
  by (simp add: keys_counted_def effective_keys_for_in overlayTree_def alloc_def default_arg_def
      get_sym_last for_in_last)






lemma for_in_val_set:
  "set (for_in_val h v) = (case v of Ref a \<Rightarrow> effective_keys h a | _ \<Rightarrow> {})"
  by (cases v) (simp_all add: for_in_val_def effective_keys_for_in)

lemma total_distinct_subjects_set:
  "set (fst (total_distinct_subjects h ds))
     = (\<Union>g \<in> effective_keys h (hc4_quads ds).
          (case get h (hc4_quads ds) g of Ref a \<Rightarrow> effective_keys h a | _ \<Rightarrow> {}))"
  by (simp add: total_distinct_subjects_def fold_subjects_set effective_keys_for_in for_in_val_set)

section \<open>The counters of the basic quad tree\<close>

lemma sum_update_new:
  "map_of al k = None \<Longrightarrow>
   sum_list (map (\<lambda>(k, c). f c) (AList.update k c' al)) = sum_list (map (\<lambda>(k, c). f c) al) + (f c' :: int)"
  by (induction al) (auto split: if_splits)

lemma sum_update_old:
  "map_of al k = Some c0 \<Longrightarrow>
   sum_list (map (\<lambda>(k, c). f c) (AList.update k c' al))
     = sum_list (map (\<lambda>(k, c). f c) al) - f c0 + (f c' :: int)"
  by (induction al) (auto split: if_splits)

lemma sum_delete_old:
  "distinct (map fst al) \<Longrightarrow> map_of al k = Some c0 \<Longrightarrow>
   sum_list (map (\<lambda>(k, c). f c) (AList.delete k al)) = sum_list (map (\<lambda>(k, c). f c) al) - (f c0 :: int)"
proof (induction al)
  case Nil
  then show ?case by simp
next
  case (Cons a al)
  show ?case
  proof (cases "fst a = k")
    case True
    with Cons.prems have "k \<notin> fst ` set al" by auto
    then have "AList.delete k al = al"
      by (simp add: delete_id)
    with True Cons.prems show ?thesis
      by (cases a) auto
  next
    case False
    with Cons show ?thesis by (cases a) auto
  qed
qed

lemma length_update:
  "length (AList.update k c al) = (if map_of al k = None then Suc (length al) else length al)"
  by (induction al) (auto split: if_splits)

lemma length_delete_old:
  "distinct (map fst al) \<Longrightarrow> map_of al k = Some c0 \<Longrightarrow>
   Suc (length (AList.delete k al)) = length al"
proof (induction al)
  case Nil
  then show ?case by simp
next
  case (Cons a al)
  show ?case
  proof (cases "fst a = k")
    case True
    with Cons.prems have "k \<notin> fst ` set al" by auto
    then have "AList.delete k al = al"
      by (simp add: delete_id)
    with True show ?thesis by simp
  next
    case False
    with Cons show ?thesis by simp
  qed
qed

lemma set_update_subset: "set (AList.update k c al) \<subseteq> insert (k, c) (set al)"
  by (induction al) auto

lemma set_delete_subset: "set (AList.delete k al) \<subseteq> set al"
  by (induction al) auto

lemma node_ok_child:
  "node_ok qc cok n \<Longrightarrow> map_of (entries n) k = Some c \<Longrightarrow> cok c"
  by (auto simp: node_ok_def dest: map_of_SomeD)

lemma node_ok_empty: "node_ok qc cok empty_node"
  by (simp add: node_ok_def empty_node_def)

lemma put_child_ok_case:
  assumes "node_ok qc cok n" "cok c"
    and "qc c = (case map_of (entries n) k of Some c0 \<Rightarrow> qc c0 | None \<Rightarrow> 0) + 1"
  shows "node_ok qc cok (put_child n k c)"
proof (cases "map_of (entries n) k")
  case None
  have "\<forall>(k', c') \<in> set (AList.update k c (entries n)). cok c'"
    using assms(1,2) set_update_subset[of k c "entries n"] by (auto simp: node_ok_def)
  with assms None show ?thesis
    by (simp add: node_ok_def put_child_def distinct_update length_update sum_update_new)
next
  case (Some c0)
  have "\<forall>(k', c') \<in> set (AList.update k c (entries n)). cok c'"
    using assms(1,2) set_update_subset[of k c "entries n"] by (auto simp: node_ok_def)
  with assms Some show ?thesis
    by (simp add: node_ok_def put_child_def distinct_update length_update sum_update_old)
qed

lemma resolve_quads:
  "qc fresh = 0 \<Longrightarrow>
   (case map_of (entries n) k of Some c0 \<Rightarrow> qc c0 | None \<Rightarrow> (0::int)) = qc (resolve n k fresh)"
  by (simp add: resolve_def split: option.splits)

lemma put_child_ok:
  assumes "node_ok qc cok n" "cok c" "qc fresh = 0"
    and "qc c = qc (resolve n k fresh) + 1"
  shows "node_ok qc cok (put_child n k c)"
proof -
  have "qc c = (case map_of (entries n) k of Some c0 \<Rightarrow> qc c0 | None \<Rightarrow> 0) + 1"
    using resolve_quads[of qc fresh n k] assms(3,4) by simp
  with assms(1,2) show ?thesis
    by (rule put_child_ok_case)
qed

lemma put_child_quads [simp]: "quadCount (put_child n k c) = quadCount n + 1"
  by (simp add: put_child_def)

lemma drop_child_ok:
  assumes "node_ok qc cok n" "map_of (entries n) k = Some c0" "cok c"
    and "qc c = qc c0 - 1" and "gone \<longrightarrow> qc c = 0"
  shows "node_ok qc cok (drop_child n k c gone)"
proof (cases gone)
  case True
  have ch: "\<forall>(k', c') \<in> set (AList.delete k (entries n)). cok c'"
    using assms(1) set_delete_subset[of k "entries n"] by (auto simp: node_ok_def)
  have d: "distinct (map fst (entries n))"
    using assms(1) by (simp add: node_ok_def)
  have len: "int (length (AList.delete k (entries n))) = int (length (entries n)) - 1"
    using length_delete_old[OF d assms(2)] by simp
  from assms True ch d len show ?thesis
    by (simp add: node_ok_def drop_child_def distinct_delete sum_delete_old)
next
  case False
  have ch: "\<forall>(k', c') \<in> set (AList.update k c (entries n)). cok c'"
    using assms(1,3) set_update_subset[of k c "entries n"] by (auto simp: node_ok_def)
  from assms False ch show ?thesis
    by (simp add: node_ok_def drop_child_def distinct_update length_update sum_update_old)
qed

lemma drop_child_quads [simp]: "quadCount (drop_child n k c gone) = quadCount n - 1"
  by (simp add: drop_child_def)


lemma resolve_ok:
  assumes "node_ok qc cok n" "cok fresh"
  shows "cok (resolve n k fresh)"
proof (cases "map_of (entries n) k")
  case None
  with assms(2) show ?thesis by (simp add: resolve_def)
next
  case (Some c)
  from node_ok_child[OF assms(1) Some] Some show ?thesis by (simp add: resolve_def)
qed

lemma add_quad_ok:
  assumes "quads_ok hc4"
  shows "quads_ok (snd (add_quad q hc4))"
proof -
  obtain g s p ob where q: "q = (g, s, p, ob)"
    by (cases q) auto
  let ?hc3 = "resolve hc4 g empty_node"
  let ?hc2 = "resolve ?hc3 s empty_node"
  let ?os = "resolve ?hc2 p []"
  show ?thesis
  proof (cases "ob \<in> set ?os")
    case True
    with assms q show ?thesis by (simp add: add_quad_def)
  next
    case False
    have ok4: "node_ok quadCount triples_ok hc4"
      using assms by (simp add: quads_ok_def)
    have ok3: "node_ok quadCount probs_ok ?hc3"
      using resolve_ok[OF ok4, of empty_node g] node_ok_empty[of quadCount probs_ok]
      by (simp add: triples_ok_def)
    have ok2: "node_ok (\<lambda>os. int (length os)) distinct ?hc2"
      using resolve_ok[OF ok3, of empty_node s]
        node_ok_empty[of "\<lambda>os. int (length os)" distinct]
      by (simp add: probs_ok_def)
    have d: "distinct ?os"
      using resolve_ok[OF ok2, of "[]" p] by simp
    let ?hc2' = "put_child ?hc2 p (?os @ [ob])"
    let ?hc3' = "put_child ?hc3 s ?hc2'"
    let ?hc4' = "put_child hc4 g ?hc3'"
    have ok2': "node_ok (\<lambda>os. int (length os)) distinct ?hc2'"
      using d False by (intro put_child_ok[OF ok2, where fresh="[]"]) simp_all
    have ok3': "node_ok quadCount probs_ok ?hc3'"
      using ok2' by (intro put_child_ok[OF ok3, where fresh=empty_node])
        (simp_all add: probs_ok_def empty_node_def)
    have ok4': "node_ok quadCount triples_ok ?hc4'"
      using ok3' by (intro put_child_ok[OF ok4, where fresh=empty_node])
        (simp_all add: triples_ok_def empty_node_def)
    have eq: "snd (add_quad q hc4) = ?hc4'"
      using False q by (simp add: add_quad_def Let_def)
    from ok4' show ?thesis
      by (simp only: eq quads_ok_def)
  qed
qed

lemma node_ok_no_entries: "node_ok qc cok n \<Longrightarrow> entries n = [] \<Longrightarrow> quadCount n = 0"
  by (simp add: node_ok_def)

lemma delete_quad_ok:
  assumes "quads_ok hc4"
  shows "quads_ok (snd (delete_quad q hc4))"
proof -
  obtain g s p ob where q: "q = (g, s, p, ob)"
    by (cases q) auto
  have ok4: "node_ok quadCount triples_ok hc4"
    using assms by (simp add: quads_ok_def)
  show ?thesis
  proof (cases "map_of (entries hc4) g")
    case None
    with assms q show ?thesis by (simp add: delete_quad_def)
  next
    case g: (Some hc3)
    have ok3: "node_ok quadCount probs_ok hc3"
      using node_ok_child[OF ok4 g] by (simp add: triples_ok_def)
    show ?thesis
    proof (cases "map_of (entries hc3) s")
      case None
      with assms q g show ?thesis by (simp add: delete_quad_def)
    next
      case s: (Some hc2)
      have ok2: "node_ok (\<lambda>os. int (length os)) distinct hc2"
        using node_ok_child[OF ok3 s] by (simp add: probs_ok_def)
      show ?thesis
      proof (cases "map_of (entries hc2) p")
        case None
        with assms q g s show ?thesis by (simp add: delete_quad_def)
      next
        case p: (Some os)
        have d: "distinct os"
          using node_ok_child[OF ok2 p] .
        show ?thesis
        proof (cases "ob \<in> set os")
          case False
          with assms q g s p show ?thesis by (simp add: delete_quad_def)
        next
          case True
          let ?os' = "remove1 ob os"
          let ?hc2' = "drop_child hc2 p ?os' (?os' = [])"
          let ?hc3' = "drop_child hc3 s ?hc2' (entries ?hc2' = [])"
          let ?hc4' = "drop_child hc4 g ?hc3' (entries ?hc3' = [] \<and> g \<noteq> ''*'')"
          have len: "int (length ?os') = int (length os) - 1"
            using True by (simp add: length_remove1) (cases os; simp)
          have ok2': "node_ok (\<lambda>os. int (length os)) distinct ?hc2'"
            using d len by (intro drop_child_ok[OF ok2 p]) simp_all
          have ok3': "node_ok quadCount probs_ok ?hc3'"
            using ok2' node_ok_no_entries[OF ok2']
            by (intro drop_child_ok[OF ok3 s]) (simp_all add: probs_ok_def)
          have ok4': "node_ok quadCount triples_ok ?hc4'"
            using ok3' node_ok_no_entries[OF ok3']
            by (intro drop_child_ok[OF ok4 g]) (simp_all add: triples_ok_def)
          have eq: "snd (delete_quad q hc4) = ?hc4'"
            using True q g s p by (simp add: delete_quad_def Let_def)
          from ok4' show ?thesis
            by (simp only: eq quads_ok_def)
        qed
      qed
    qed
  qed
qed

lemma empty_tree_ok: "quads_ok empty_tree"
  by (simp add: quads_ok_def triples_ok_def node_ok_def empty_tree_def empty_node_def)

lemma apply_op_ok: "quads_ok hc4 \<Longrightarrow> quads_ok (apply_op op hc4)"
  by (cases op) (simp_all add: add_quad_ok delete_quad_ok)

lemma fold_apply_op_ok: "quads_ok hc4 \<Longrightarrow> quads_ok (fold apply_op ops hc4)"
  by (induction ops arbitrary: hc4) (simp_all add: apply_op_ok)

lemma run_ok: "quads_ok (run ops)"
  by (simp add: run_def fold_apply_op_ok empty_tree_ok)


lemma length_level:
  "int (length (concat (map (\<lambda>(k, c). f k c) al))) = sum_list (map (\<lambda>(k, c). int (length (f k c))) al)"
  by (induction al) auto

lemma sum_list_children:
  "\<forall>(k, c) \<in> set al. f k c = (g c :: int) \<Longrightarrow>
   sum_list (map (\<lambda>(k, c). f k c) al) = sum_list (map (\<lambda>(k, c). g c) al)"
  by (induction al) auto

lemma distinct_level:
  assumes "distinct (map fst al)"
    and "\<forall>(k, c) \<in> set al. distinct (f k c)"
    and "\<forall>(k, c) \<in> set al. \<forall>x \<in> set (f k c). key x = k"
  shows "distinct (concat (map (\<lambda>(k, c). f k c) al))"
  using assms
proof (induction al)
  case Nil
  show ?case by simp
next
  case (Cons a al)
  obtain k c where a: "a = (k, c)" by (cases a)
  have rest: "distinct (concat (map (\<lambda>(k, c). f k c) al))"
    using Cons by simp
  have here: "distinct (f k c)"
    using Cons.prems(2) a by simp
  have disj: "set (f k c) \<inter> set (concat (map (\<lambda>(k, c). f k c) al)) = {}"
  proof (rule ccontr)
    assume "set (f k c) \<inter> set (concat (map (\<lambda>(k, c). f k c) al)) \<noteq> {}"
    then obtain x where x1: "x \<in> set (f k c)" and x2: "x \<in> set (concat (map (\<lambda>(k, c). f k c) al))"
      by blast
    from x2 obtain k' c' where kc: "(k', c') \<in> set al" and x3: "x \<in> set (f k' c')"
      by auto
    from Cons.prems(3) a x1 have "key x = k" by simp
    moreover from Cons.prems(3) kc x3 have "key x = k'" by fastforce
    moreover from Cons.prems(1) a kc have "k \<noteq> k'" by force
    ultimately show False by simp
  qed
  from rest here disj a show ?case by simp
qed

lemma probs_count:
  assumes "probs_ok hc2"
  shows "int (length (concat (map (\<lambda>(p, os). map (\<lambda>ob. (g, s, p, ob)) os) (entries hc2))))
           = quadCount hc2"
  using assms by (simp add: length_level probs_ok_def node_ok_def)

lemma triples_count:
  assumes "triples_ok hc3"
  shows "int (length (concat (map (\<lambda>(s, hc2).
            concat (map (\<lambda>(p, os). map (\<lambda>ob. (g, s, p, ob)) os) (entries hc2)))
          (entries hc3)))) = quadCount hc3"
proof -
  have ch: "\<forall>(s, hc2) \<in> set (entries hc3).
      int (length (concat (map (\<lambda>(p, os). map (\<lambda>ob. (g, s, p, ob)) os) (entries hc2))))
        = quadCount hc2"
    using assms by (auto simp: triples_ok_def node_ok_def probs_count)
  have "quadCount hc3 = sum_list (map (\<lambda>(s, hc2). quadCount hc2) (entries hc3))"
    using assms by (simp add: triples_ok_def node_ok_def)
  with sum_list_children[OF ch] show ?thesis
    by (simp add: length_level)
qed

lemma quads_count:
  assumes "quads_ok hc4"
  shows "int (length (iterate_quads hc4)) = quadCount hc4"
proof -
  have ch: "\<forall>(g, hc3) \<in> set (entries hc4).
      int (length (concat (map (\<lambda>(s, hc2).
            concat (map (\<lambda>(p, os). map (\<lambda>ob. (g, s, p, ob)) os) (entries hc2)))
          (entries hc3)))) = quadCount hc3"
    using assms by (auto simp: quads_ok_def node_ok_def triples_count)
  have "quadCount hc4 = sum_list (map (\<lambda>(g, hc3). quadCount hc3) (entries hc4))"
    using assms by (simp add: quads_ok_def node_ok_def)
  with sum_list_children[OF ch] show ?thesis
    by (simp add: iterate_quads_def length_level)
qed

lemma probs_distinct:
  assumes "probs_ok hc2"
  shows "distinct (concat (map (\<lambda>(p, os). map (\<lambda>ob. (g, s, p, ob)) os) (entries hc2)))"
proof (rule distinct_level[where key = "\<lambda>(g, s, p, ob). p"])
  show "distinct (map fst (entries hc2))"
    using assms by (simp add: probs_ok_def node_ok_def)
  show "\<forall>(p, os) \<in> set (entries hc2). distinct (map (\<lambda>ob. (g, s, p, ob)) os)"
    using assms by (auto simp: probs_ok_def node_ok_def distinct_map inj_on_def)
  show "\<forall>(p, os) \<in> set (entries hc2). \<forall>x \<in> set (map (\<lambda>ob. (g, s, p, ob)) os).
          (case x of (g, s, p, ob) \<Rightarrow> p) = p"
    by auto
qed

lemma triples_distinct:
  assumes "triples_ok hc3"
  shows "distinct (concat (map (\<lambda>(s, hc2).
            concat (map (\<lambda>(p, os). map (\<lambda>ob. (g, s, p, ob)) os) (entries hc2)))
          (entries hc3)))"
proof (rule distinct_level[where key = "\<lambda>(g, s, p, ob). s"])
  show "distinct (map fst (entries hc3))"
    using assms by (simp add: triples_ok_def node_ok_def)
  show "\<forall>(s, hc2) \<in> set (entries hc3).
          distinct (concat (map (\<lambda>(p, os). map (\<lambda>ob. (g, s, p, ob)) os) (entries hc2)))"
    using assms by (auto simp: triples_ok_def node_ok_def probs_distinct)
  show "\<forall>(s, hc2) \<in> set (entries hc3).
          \<forall>x \<in> set (concat (map (\<lambda>(p, os). map (\<lambda>ob. (g, s, p, ob)) os) (entries hc2))).
            (case x of (g, s, p, ob) \<Rightarrow> s) = s"
    by auto
qed

lemma quads_distinct:
  assumes "quads_ok hc4"
  shows "distinct (iterate_quads hc4)"
  unfolding iterate_quads_def
proof (rule distinct_level[where key = "\<lambda>(g, s, p, ob). g"])
  show "distinct (map fst (entries hc4))"
    using assms by (simp add: quads_ok_def node_ok_def)
  show "\<forall>(g, hc3) \<in> set (entries hc4).
          distinct (concat (map (\<lambda>(s, hc2).
            concat (map (\<lambda>(p, os). map (\<lambda>ob. (g, s, p, ob)) os) (entries hc2)))
          (entries hc3)))"
    using assms by (auto simp: quads_ok_def node_ok_def triples_distinct)
  show "\<forall>(g, hc3) \<in> set (entries hc4).
          \<forall>x \<in> set (concat (map (\<lambda>(s, hc2).
            concat (map (\<lambda>(p, os). map (\<lambda>ob. (g, s, p, ob)) os) (entries hc2)))
          (entries hc3))). (case x of (g, s, p, ob) \<Rightarrow> g) = g"
    by auto
qed

lemma resolve_put_child:
  "resolve (put_child n k c) k' fresh = (if k' = k then c else resolve n k' fresh)"
  by (simp add: resolve_def put_child_def update_conv')

lemma resolve_drop_child:
  "resolve (drop_child n k c gone) k' fresh
     = (if k' = k then (if gone then fresh else c) else resolve n k' fresh)"
  by (simp add: resolve_def drop_child_def update_conv' delete_conv')

lemma resolve_no_entries: "entries n = [] \<Longrightarrow> resolve n k fresh = fresh"
  by (simp add: resolve_def)

lemma resolve_empty_node [simp]: "resolve empty_node k fresh = fresh"
  by (simp add: resolve_def empty_node_def)

lemma resolve_present: "map_of (entries n) k = Some c \<Longrightarrow> resolve n k fresh = c"
  by (simp add: resolve_def)

lemma entries_resolve_drop:
  "gone \<longrightarrow> entries c = [] \<Longrightarrow>
   entries (resolve (drop_child n k c gone) k' empty_node)
     = (if k' = k then entries c else entries (resolve n k' empty_node))"
  by (auto simp: resolve_drop_child empty_node_def)

lemma resolve_cong_entries: "entries a = entries b \<Longrightarrow> resolve a k fresh = resolve b k fresh"
  by (simp add: resolve_def)

lemma objects_at_add:
  "objects_at (snd (add_quad (g, s, p, ob) hc4)) g' s' p'
     = (if g' = g \<and> s' = s \<and> p' = p \<and> ob \<notin> set (objects_at hc4 g s p)
        then objects_at hc4 g s p @ [ob]
        else objects_at hc4 g' s' p')"
  by (simp add: add_quad_def Let_def objects_at_def resolve_put_child)

lemma objects_at_delete:
  assumes "quads_ok hc4"
  shows "set (objects_at (snd (delete_quad (g, s, p, ob) hc4)) g' s' p')
     = (if g' = g \<and> s' = s \<and> p' = p
        then set (objects_at hc4 g s p) - {ob}
        else set (objects_at hc4 g' s' p'))"
proof -
  have ok4: "node_ok quadCount triples_ok hc4"
    using assms by (simp add: quads_ok_def)
  show ?thesis
  proof (cases "map_of (entries hc4) g")
    case None
    then have "resolve hc4 g empty_node = empty_node"
      by (simp add: resolve_def)
    with None show ?thesis
      by (simp add: delete_quad_def objects_at_def)
  next
    case g: (Some hc3)
    have ok3: "node_ok quadCount probs_ok hc3"
      using node_ok_child[OF ok4 g] by (simp add: triples_ok_def)
    have r3: "resolve hc4 g empty_node = hc3"
      using g by (rule resolve_present)
    show ?thesis
    proof (cases "map_of (entries hc3) s")
      case None
      then have "resolve hc3 s empty_node = empty_node"
        by (simp add: resolve_def)
      with None g r3 show ?thesis
        by (simp add: delete_quad_def objects_at_def)
    next
      case s: (Some hc2)
      have ok2: "node_ok (\<lambda>os. int (length os)) distinct hc2"
        using node_ok_child[OF ok3 s] by (simp add: probs_ok_def)
      have r2: "resolve hc3 s empty_node = hc2"
        using s by (rule resolve_present)
      show ?thesis
      proof (cases "map_of (entries hc2) p")
        case None
        then have "resolve hc2 p [] = []"
          by (simp add: resolve_def)
        with None g s r3 r2 show ?thesis
          by (simp add: delete_quad_def objects_at_def)
      next
        case p: (Some os)
        have d: "distinct os"
          using node_ok_child[OF ok2 p] .
        have r1: "resolve hc2 p [] = os"
          using p by (rule resolve_present)
        have at: "objects_at hc4 g s p = os"
          by (simp add: objects_at_def r3 r2 r1)
        show ?thesis
        proof (cases "ob \<in> set os")
          case False
          with g s p at show ?thesis
            by (simp add: delete_quad_def)
        next
          case True
          let ?os' = "remove1 ob os"
          let ?hc2' = "drop_child hc2 p ?os' (?os' = [])"
          let ?hc3' = "drop_child hc3 s ?hc2' (entries ?hc2' = [])"
          let ?hc4' = "drop_child hc4 g ?hc3' (entries ?hc3' = [] \<and> g \<noteq> ''*'')"
          have eq: "snd (delete_quad (g, s, p, ob) hc4) = ?hc4'"
            using True g s p by (simp add: delete_quad_def Let_def)
          have rm: "set ?os' = set os - {ob}"
            using d by simp
          have l2: "resolve ?hc2' p'' [] = (if p'' = p then ?os' else resolve hc2 p'' [])" for p''
            by (simp add: resolve_drop_child)
          have l3: "resolve (resolve ?hc3' s'' empty_node) p'' []
                      = (if s'' = s then resolve ?hc2' p'' []
                         else resolve (resolve hc3 s'' empty_node) p'' [])" for s'' p''
          proof -
            have "entries (resolve ?hc3' s'' empty_node)
                    = (if s'' = s then entries ?hc2' else entries (resolve hc3 s'' empty_node))"
              by (rule entries_resolve_drop) simp
            then show ?thesis
              by (cases "s'' = s") (auto intro: resolve_cong_entries)
          qed
          have l4: "resolve (resolve (resolve ?hc4' g'' empty_node) s'' empty_node) p'' []
                      = (if g'' = g then resolve (resolve ?hc3' s'' empty_node) p'' []
                         else resolve (resolve (resolve hc4 g'' empty_node) s'' empty_node) p'' [])"
            for g'' s'' p''
          proof -
            have "entries (resolve ?hc4' g'' empty_node)
                    = (if g'' = g then entries ?hc3' else entries (resolve hc4 g'' empty_node))"
              by (rule entries_resolve_drop) simp
            then have "resolve (resolve ?hc4' g'' empty_node) s'' empty_node
                    = (if g'' = g then resolve ?hc3' s'' empty_node
                       else resolve (resolve hc4 g'' empty_node) s'' empty_node)"
              by (cases "g'' = g") (auto intro: resolve_cong_entries)
            then show ?thesis
              by (cases "g'' = g") simp_all
          qed
          show ?thesis
            unfolding eq objects_at_def l4 l3 l2
            using rm r1 r2 r3 by simp
        qed
      qed
    qed
  qed
qed


lemma mem_level:
  "x \<in> set (concat (map (\<lambda>(k, c). f k c) al)) \<longleftrightarrow> (\<exists>k c. (k, c) \<in> set al \<and> x \<in> set (f k c))"
  by (induction al) auto

lemma mem_iterate_quads:
  "(g, s, p, ob) \<in> set (iterate_quads hc4) \<longleftrightarrow>
     (\<exists>hc3 hc2 os. (g, hc3) \<in> set (entries hc4) \<and> (s, hc2) \<in> set (entries hc3)
        \<and> (p, os) \<in> set (entries hc2) \<and> ob \<in> set os)"
  unfolding iterate_quads_def mem_level by (auto simp: image_iff) blast

lemma mem_resolve_set:
  "x \<in> set (resolve n k []) \<longleftrightarrow> (\<exists>os. map_of (entries n) k = Some os \<and> x \<in> set os)"
  by (cases "map_of (entries n) k") (simp_all add: resolve_def)

lemma map_of_resolve_node:
  "map_of (entries (resolve n k empty_node)) k2 = Some c \<longleftrightarrow>
     (\<exists>m. map_of (entries n) k = Some m \<and> map_of (entries m) k2 = Some c)"
  by (cases "map_of (entries n) k") (simp_all add: resolve_def empty_node_def)

lemma mem_objects_at:
  "ob \<in> set (objects_at hc4 g s p) \<longleftrightarrow>
     (\<exists>hc3 hc2 os. map_of (entries hc4) g = Some hc3 \<and> map_of (entries hc3) s = Some hc2
        \<and> map_of (entries hc2) p = Some os \<and> ob \<in> set os)"
  unfolding objects_at_def mem_resolve_set map_of_resolve_node by blast

lemma mem_iterate_objects_at:
  assumes "quads_ok hc4"
  shows "(g, s, p, ob) \<in> set (iterate_quads hc4) \<longleftrightarrow> ob \<in> set (objects_at hc4 g s p)"
proof -
  have d4: "distinct (map fst (entries hc4))"
    using assms by (simp add: quads_ok_def node_ok_def)
  have d3: "distinct (map fst (entries hc3))" if "(g, hc3) \<in> set (entries hc4)" for g hc3
    using assms that by (auto simp: quads_ok_def triples_ok_def node_ok_def)
  have d2: "distinct (map fst (entries hc2))"
    if "(g, hc3) \<in> set (entries hc4)" "(s, hc2) \<in> set (entries hc3)" for g hc3 s hc2
    using assms that by (fastforce simp: quads_ok_def triples_ok_def probs_ok_def node_ok_def)
  show ?thesis
  proof
    assume "(g, s, p, ob) \<in> set (iterate_quads hc4)"
    then obtain hc3 hc2 os where m: "(g, hc3) \<in> set (entries hc4)" "(s, hc2) \<in> set (entries hc3)"
        "(p, os) \<in> set (entries hc2)" "ob \<in> set os"
      unfolding mem_iterate_quads by blast
    from m d4 d3[OF m(1)] d2[OF m(1,2)] have
      "map_of (entries hc4) g = Some hc3" "map_of (entries hc3) s = Some hc2"
      "map_of (entries hc2) p = Some os"
      by simp_all
    with m(4) show "ob \<in> set (objects_at hc4 g s p)"
      unfolding mem_objects_at by blast
  next
    assume "ob \<in> set (objects_at hc4 g s p)"
    then obtain hc3 hc2 os where m: "map_of (entries hc4) g = Some hc3"
        "map_of (entries hc3) s = Some hc2" "map_of (entries hc2) p = Some os" "ob \<in> set os"
      unfolding mem_objects_at by blast
    then have "(g, hc3) \<in> set (entries hc4)" "(s, hc2) \<in> set (entries hc3)"
        "(p, os) \<in> set (entries hc2)"
      by (auto dest: map_of_SomeD)
    with m(4) show "(g, s, p, ob) \<in> set (iterate_quads hc4)"
      unfolding mem_iterate_quads by blast
  qed
qed

lemma set_iterate_add:
  assumes "quads_ok hc4"
  shows "set (iterate_quads (snd (add_quad q hc4))) = insert q (set (iterate_quads hc4))"
proof -
  obtain g s p ob where q: "q = (g, s, p, ob)"
    by (cases q) auto
  have ok': "quads_ok (snd (add_quad (g, s, p, ob) hc4))"
    using assms by (rule add_quad_ok)
  have "(x \<in> set (iterate_quads (snd (add_quad (g, s, p, ob) hc4))))
          = (x \<in> insert (g, s, p, ob) (set (iterate_quads hc4)))" for x
  proof -
    obtain g' s' p' ob' where x: "x = (g', s', p', ob')"
      by (cases x) auto
    show ?thesis
      unfolding x mem_iterate_objects_at[OF ok'] insert_iff mem_iterate_objects_at[OF assms]
        objects_at_add
      by auto
  qed
  then show ?thesis
    unfolding q by blast
qed

lemma set_iterate_delete:
  assumes "quads_ok hc4"
  shows "set (iterate_quads (snd (delete_quad q hc4))) = set (iterate_quads hc4) - {q}"
proof -
  obtain g s p ob where q: "q = (g, s, p, ob)"
    by (cases q) auto
  have ok': "quads_ok (snd (delete_quad (g, s, p, ob) hc4))"
    using assms by (rule delete_quad_ok)
  have "(x \<in> set (iterate_quads (snd (delete_quad (g, s, p, ob) hc4))))
          = (x \<in> set (iterate_quads hc4) - {(g, s, p, ob)})" for x
  proof -
    obtain g' s' p' ob' where x: "x = (g', s', p', ob')"
      by (cases x) auto
    show ?thesis
      unfolding x mem_iterate_objects_at[OF ok'] Diff_iff mem_iterate_objects_at[OF assms]
        objects_at_delete[OF assms]
      by auto
  qed
  then show ?thesis
    unfolding q by blast
qed

lemma set_iterate_fold:
  "quads_ok hc4 \<Longrightarrow>
   set (iterate_quads (fold apply_op ops hc4)) = fold stored_after ops (set (iterate_quads hc4))"
proof (induction ops arbitrary: hc4)
  case Nil
  show ?case by simp
next
  case (Cons op ops)
  have step: "set (iterate_quads (apply_op op hc4)) = stored_after op (set (iterate_quads hc4))"
    using Cons.prems by (cases op) (simp_all add: set_iterate_add set_iterate_delete)
  from Cons.IH[OF apply_op_ok[OF Cons.prems], of op] step show ?case
    by simp
qed

lemma set_iterate_run: "set (iterate_quads (run ops)) = stored ops"
proof -
  have "iterate_quads empty_tree = []"
    by (simp add: iterate_quads_def empty_tree_def empty_node_def)
  with set_iterate_fold[OF empty_tree_ok, of ops] show ?thesis
    by (simp add: run_def stored_def)
qed

lemma store_node_last:
  "\<exists>ps h1. store_node st h n = (length h1, h1 @ [node_obj ps n])"
  by (cases "store_children st h (entries n)") (auto simp: store_node_def alloc_def)

lemma size_ds_dataset_of:
  "size_ds (fst (dataset_of hc4)) (snd (dataset_of hc4)) = Num (quadCount hc4)"
proof -
  obtain ps h1 where st: "store_quads [] hc4 = (length h1, h1 @ [node_obj ps hc4])"
    using store_node_last[of store_triples "[]" hc4] by (auto simp: store_quads_def)
  have "get_sym (h1 @ [node_obj ps hc4]) (length h1) QUADS = Num (quadCount hc4)"
    by (simp add: get_sym_last node_obj_def)
  then show ?thesis
    by (simp add: dataset_of_def st size_ds_def constructor_def)
qed

section \<open>Derived datasets keep the key counter\<close>







section \<open>Claims about the overlay engine\<close>

text \<open>
  C1. For every node \<open>n\<close> of the heap, an overlay node in particular, \<^verbatim>\<open>trace(n)\<close> returns a
  node whose own string keys are exactly the effective keys of \<open>n\<close> (the own keys of every
  object of its delegation chain, \<open>effective_keys\<close>), each mapped to the value the effective lookup on \<open>n\<close>
  gives, and whose \<^verbatim>\<open>$_KEYS\<close> and \<^verbatim>\<open>$_QUADS\<close> counters are those read on \<open>n\<close>. Hence every
  lookup and every enumeration on the new node agrees with the one on \<open>n\<close> before the call.
\<close>

theorem trace_materializes:
  assumes "n < length h"
  shows "\<exists>d h'. trace h n = Inr (d, h')
           \<and> set (own_keys h' d) = effective_keys h n
           \<and> (\<forall>k. map_of (props (h' ! d)) k =
                     (if k \<in> set (for_in h n) then Some (get h n k) else None))
           \<and> set (for_in h' d) = set (for_in h n)
           \<and> (\<forall>k. get h' d k = get h n k)
           \<and> get_sym h' d KEYS = get_sym h n KEYS
           \<and> get_sym h' d QUADS = get_sym h n QUADS"
proof -
  let ?ps = "fold (\<lambda>k. AList.update k (get h n k)) (for_in h n) []"
  let ?ob = "\<lparr>props = ?ps, syms = [(KEYS, get_sym h n KEYS), (QUADS, get_sym h n QUADS)],
              proto = None\<rparr>"
  let ?h' = "h @ [?ob]"
  have tr: "trace h n = Inr (length h, ?h')"
    using assms by (rule trace_closed)
  have keys: "set (map fst ?ps) = set (for_in h n)"
    using keys_fold_update[of "get h n" "for_in h n" "[]"] by simp
  have own: "set (own_keys ?h' (length h)) = effective_keys h n"
    using keys by (simp add: own_keys_def for_in_set effective_keys_def)
  have mp: "\<forall>k. map_of (props (?h' ! length h)) k =
                 (if k \<in> set (for_in h n) then Some (get h n k) else None)"
    by (simp add: map_of_fold_update)
  have fi: "set (for_in ?h' (length h)) = set (for_in h n)"
    using keys by (simp add: for_in_last)
  have gt: "\<forall>k. get ?h' (length h) k = get h n k"
    by (simp add: get_last map_of_fold_update get_absent)
  have sk: "get_sym ?h' (length h) KEYS = get_sym h n KEYS"
    by (simp add: get_sym_last)
  have sq: "get_sym ?h' (length h) QUADS = get_sym h n QUADS"
    by (simp add: get_sym_last)
  from tr own mp fi gt sk sq show ?thesis by blast
qed

theorem trace_materializes_witness:
  "(1::nat) < length ex_heap
   \<and> (\<exists>d h'. trace ex_heap 1 = Inr (d, h')
         \<and> set (own_keys h' d) = {''p1'', ''p2'', ''p3''}
         \<and> get h' d ''p1'' = ObjSet [''a'']
         \<and> get h' d ''p2'' = ObjSet [''c'']
         \<and> get_sym h' d KEYS = Num 3)"
proof -
  have len: "(1::nat) < length ex_heap"
    by (simp add: ex_heap_def)
  have ks: "effective_keys ex_heap 1 = {''p1'', ''p2'', ''p3''}"
    by code_simp
  have g1: "get ex_heap 1 ''p1'' = ObjSet [''a'']"
    by code_simp
  have g2: "get ex_heap 1 ''p2'' = ObjSet [''c'']"
    by code_simp
  have s: "get_sym ex_heap 1 KEYS = Num 3"
    by code_simp
  from trace_materializes[OF len] obtain d h' where
    "trace ex_heap 1 = Inr (d, h')"
    "set (own_keys h' d) = effective_keys ex_heap 1"
    "\<forall>k. get h' d k = get ex_heap 1 k"
    "get_sym h' d KEYS = get_sym ex_heap 1 KEYS"
    by blast
  with ks g1 g2 s have
    "trace ex_heap 1 = Inr (d, h')
       \<and> set (own_keys h' d) = {''p1'', ''p2'', ''p3''}
       \<and> get h' d ''p1'' = ObjSet [''a'']
       \<and> get h' d ''p2'' = ObjSet [''c'']
       \<and> get_sym h' d KEYS = Num 3"
    by simp
  with len show ?thesis by blast
qed

text \<open>
  C2. For every node \<open>src\<close>, \<^verbatim>\<open>overlay(src)\<close> returns a new node \<open>d\<close>, different from
  \<open>src\<close> and from every object of the heap before the call, with no own key and with
  \<open>src\<close> as its prototype. It delegates: right after the call every lookup on \<open>d\<close> gives
  what the lookup on \<open>src\<close> gives (through the chain of \<open>src\<close>), and after any later
  writes on \<open>d\<close> a key that \<open>d\<close> does not own is still looked up on \<open>src\<close>. A key set
  on \<open>d\<close> gives the value set on \<open>d\<close> when read on \<open>d\<close> and still the old value when read
  on \<open>src\<close>: it shadows the key of \<open>src\<close> and does not replace it. After the call \<open>src\<close>
  has the \<^verbatim>\<open>$_BURIED\<close> marker and \<open>d\<close> the \<^verbatim>\<open>$_OVERLAY\<close> marker.
\<close>

theorem overlay_delegates:
  assumes "src < length h"
  shows "\<exists>d h'. overlay h src = Inr (d, h')
           \<and> d = length h \<and> d \<noteq> src \<and> length h' = Suc (length h)
           \<and> props (h' ! d) = [] \<and> proto (h' ! d) = Some src
           \<and> map_of (syms (h' ! src)) BURIED = Some (Num 1)
           \<and> get_sym h' src BURIED = Num 1
           \<and> get_sym h' d OVERLAY = Num 1
           \<and> (\<forall>k. get h' d k = get h' src k)
           \<and> (\<forall>k. get h' src k = get h src k)
           \<and> (\<forall>ms k. get (fold (mutate d) ms h') d k =
                  (case map_of (props (fold (mutate d) ms h' ! d)) k of
                     Some v \<Rightarrow> v
                   | None \<Rightarrow> get (fold (mutate d) ms h') src k))
           \<and> (\<forall>ms k v. get (mutate d (SetKey k v) (fold (mutate d) ms h')) d k = v)
           \<and> (\<forall>ms k v. get (mutate d (SetKey k v) (fold (mutate d) ms h')) src k = get h src k)"
proof -
  let ?h0 = "set_sym h src BURIED (Num 1)"
  let ?ob = "\<lparr>props = [], syms = [(OVERLAY, Num 1)], proto = Some src\<rparr>"
  let ?h' = "?h0 @ [?ob]"
  let ?d = "length h"
  have len0: "length ?h0 = length h"
    by (simp add: set_sym_def)
  have src0: "src < length ?h0"
    using assms len0 by simp
  have ov: "overlay h src = Inr (?d, ?h')"
    using assms by (rule overlay_set_sym)
  have fr: "?d \<noteq> src"
    using assms by simp
  have ln: "length ?h' = Suc (length h)"
    using len0 by simp
  have nd0: "?h' ! ?d = ?ob"
    using len0 by (simp add: nth_append)
  have pd: "props (?h' ! ?d) = []" and qd: "proto (?h' ! ?d) = Some src"
    by (simp_all add: nd0)
  have b1: "map_of (syms (?h' ! src)) BURIED = Some (Num 1)"
    using assms src0 by (simp add: nth_append map_of_syms_set_sym)
  have b2: "get_sym ?h' src BURIED = Num 1"
    using assms src0 by (simp add: get_sym_append get_sym_set_sym_same)
  have o1: "get_sym ?h' ?d OVERLAY = Num 1"
    using get_sym_overlay_node[of ?ob src ?h0 OVERLAY] src0 len0 by simp
  have g1: "\<forall>k. get ?h' ?d k = get ?h' src k"
    using get_overlay_node[of ?ob src ?h0] src0 len0 by simp
  have g2: "\<forall>k. get ?h' src k = get h src k"
    using src0 by (simp add: get_append get_set_sym)
  have g3: "get (fold (mutate ?d) ms ?h') ?d k =
              (case map_of (props (fold (mutate ?d) ms ?h' ! ?d)) k of
                 Some v \<Rightarrow> v
               | None \<Rightarrow> get (fold (mutate ?d) ms ?h') src k)" for ms k
  proof -
    from mutate_last[of ?h0 ms ?ob] len0 obtain ob' where
      f: "fold (mutate ?d) ms ?h' = ?h0 @ [ob']" and p: "proto ob' = Some src"
      by auto
    have nd: "(?h0 @ [ob']) ! ?d = ob'"
      using len0 by (simp add: nth_append)
    from get_overlay_node[OF p src0, of k] len0 show ?thesis
      by (simp add: f nd cong: option.case_cong)
  qed
  have g4: "get (mutate ?d (SetKey k v) (fold (mutate ?d) ms ?h')) ?d k = v" for ms k v
  proof -
    from mutate_last[of ?h0 ms ?ob] len0 obtain ob' where
      f: "fold (mutate ?d) ms ?h' = ?h0 @ [ob']" and p: "proto ob' = Some src"
      by auto
    let ?ob2 = "ob'\<lparr>props := AList.update k v (props ob')\<rparr>"
    have m: "set_prop (?h0 @ [ob']) ?d k v = ?h0 @ [?ob2]"
      using set_prop_last[of ?h0 ob' k v] len0 by simp
    have p2: "proto ?ob2 = Some src"
      using p by simp
    from get_overlay_node[OF p2 src0, of k] len0 show ?thesis
      by (simp add: f m update_conv')
  qed
  have g5: "get (mutate ?d (SetKey k v) (fold (mutate ?d) ms ?h')) src k = get h src k" for ms k v
  proof -
    from mutate_last[of ?h0 ms ?ob] len0 obtain ob' where
      f: "fold (mutate ?d) ms ?h' = ?h0 @ [ob']"
      by auto
    have m: "set_prop (?h0 @ [ob']) ?d k v = ?h0 @ [ob'\<lparr>props := AList.update k v (props ob')\<rparr>]"
      using set_prop_last[of ?h0 ob' k v] len0 by simp
    show ?thesis
      using src0 by (simp add: f m get_append get_set_sym)
  qed
  from ov fr ln pd qd b1 b2 o1 g1 g2 g3 g4 g5 show ?thesis by blast
qed

theorem overlay_delegates_witness:
  "(1::nat) < length ex_heap
   \<and> (\<exists>d h'. overlay ex_heap 1 = Inr (d, h')
         \<and> d = 2 \<and> d \<noteq> 1
         \<and> get_sym h' 1 BURIED = Num 1
         \<and> get h' d ''p1'' = ObjSet [''a'']
         \<and> get h' d ''p2'' = ObjSet [''c'']
         \<and> get (mutate d (SetKey ''p1'' (ObjSet [''z''])) h') d ''p1'' = ObjSet [''z'']
         \<and> get (mutate d (SetKey ''p1'' (ObjSet [''z''])) h') 1 ''p1'' = ObjSet [''a''])"
proof -
  have len: "(1::nat) < length ex_heap"
    by (simp add: ex_heap_def)
  have l2: "length ex_heap = 2"
    by (simp add: ex_heap_def)
  have g1: "get ex_heap 1 ''p1'' = ObjSet [''a'']"
    by code_simp
  have g2: "get ex_heap 1 ''p2'' = ObjSet [''c'']"
    by code_simp
  from overlay_delegates[OF len] obtain d h' where
    a: "overlay ex_heap 1 = Inr (d, h')" and
    n: "d = length ex_heap" "d \<noteq> 1" and
    b: "get_sym h' 1 BURIED = Num 1" and
    c: "\<forall>k. get h' d k = get h' 1 k" and
    e: "\<forall>k. get h' 1 k = get ex_heap 1 k" and
    f: "\<forall>ms k v. get (mutate d (SetKey k v) (fold (mutate d) ms h')) d k = v" and
    g: "\<forall>ms k v. get (mutate d (SetKey k v) (fold (mutate d) ms h')) 1 k = get ex_heap 1 k"
    by blast
  from f have f': "get (mutate d (SetKey ''p1'' (ObjSet [''z''])) (fold (mutate d) [] h')) d ''p1'' = ObjSet [''z'']"
    by blast
  from g have g': "get (mutate d (SetKey ''p1'' (ObjSet [''z''])) (fold (mutate d) [] h')) 1 ''p1''
                     = get ex_heap 1 ''p1''"
    by blast
  from a n l2 b c e f' g' g1 g2 have
    "overlay ex_heap 1 = Inr (d, h')
         \<and> d = 2 \<and> d \<noteq> 1
         \<and> get_sym h' 1 BURIED = Num 1
         \<and> get h' d ''p1'' = ObjSet [''a'']
         \<and> get h' d ''p2'' = ObjSet [''c'']
         \<and> get (mutate d (SetKey ''p1'' (ObjSet [''z''])) h') d ''p1'' = ObjSet [''z'']
         \<and> get (mutate d (SetKey ''p1'' (ObjSet [''z''])) h') 1 ''p1'' = ObjSet [''a'']"
    by simp
  with len show ?thesis by blast
qed

text \<open>
  C3. For every node \<open>src\<close>, \<^verbatim>\<open>overlay(src)\<close> leaves the string-keyed entries, the prototype
  and every symbol-keyed property of \<open>src\<close> other than \<^verbatim>\<open>$_BURIED\<close> as they were, the two
  counters in particular, and touches no other object. After any sequence of writes on the
  derived node (keys set, overwritten or removed, symbol properties written) every object
  that existed before is still as the call left it, so the own keys, the enumeration, every
  lookup and both counters read on \<open>src\<close> are those from before the derivation.
\<close>

theorem overlay_frame:
  assumes "src < length h"
  shows "\<exists>d h'. overlay h src = Inr (d, h')
           \<and> props (h' ! src) = props (h ! src)
           \<and> proto (h' ! src) = proto (h ! src)
           \<and> (\<forall>s. s \<noteq> BURIED \<longrightarrow> map_of (syms (h' ! src)) s = map_of (syms (h ! src)) s)
           \<and> get_sym h' src KEYS = get_sym h src KEYS
           \<and> get_sym h' src QUADS = get_sym h src QUADS
           \<and> (\<forall>b < length h. b \<noteq> src \<longrightarrow> h' ! b = h ! b)
           \<and> (\<forall>ms. take (length h) (fold (mutate d) ms h') = take (length h) h'
                  \<and> own_keys (fold (mutate d) ms h') src = own_keys h src
                  \<and> for_in (fold (mutate d) ms h') src = for_in h src
                  \<and> (\<forall>k. get (fold (mutate d) ms h') src k = get h src k)
                  \<and> get_sym (fold (mutate d) ms h') src KEYS = get_sym h src KEYS
                  \<and> get_sym (fold (mutate d) ms h') src QUADS = get_sym h src QUADS)"
proof -
  let ?h0 = "set_sym h src BURIED (Num 1)"
  let ?ob = "\<lparr>props = [], syms = [(OVERLAY, Num 1)], proto = Some src\<rparr>"
  let ?h' = "?h0 @ [?ob]"
  let ?d = "length h"
  have len0: "length ?h0 = length h"
    by (simp add: set_sym_def)
  have src0: "src < length ?h0"
    using assms len0 by simp
  have ov: "overlay h src = Inr (?d, ?h')"
    using assms by (rule overlay_set_sym)
  have at_src: "?h' ! src = ?h0 ! src"
    using src0 by (simp add: nth_append)
  have p1: "props (?h' ! src) = props (h ! src)"
    by (simp only: at_src nth_set_sym)
  have p2: "proto (?h' ! src) = proto (h ! src)"
    by (simp only: at_src nth_set_sym)
  have p3: "\<forall>s. s \<noteq> BURIED \<longrightarrow> map_of (syms (?h' ! src)) s = map_of (syms (h ! src)) s"
    using assms by (simp add: at_src map_of_syms_set_sym)
  have k0: "get_sym ?h0 src KEYS = get_sym h src KEYS"
    using assms by (simp add: get_sym_set_sym_other)
  have q0: "get_sym ?h0 src QUADS = get_sym h src QUADS"
    using assms by (simp add: get_sym_set_sym_other)
  have g0: "get ?h0 src k = get h src k" for k
    by (rule get_set_sym)
  have f0: "for_in ?h0 src = for_in h src"
    by (rule for_in_set_sym)
  have o0: "own_keys ?h0 src = own_keys h src"
    by (simp add: own_keys_def nth_set_sym)
  have p4: "get_sym ?h' src KEYS = get_sym h src KEYS"
    using src0 k0 by (simp add: get_sym_append)
  have p5: "get_sym ?h' src QUADS = get_sym h src QUADS"
    using src0 q0 by (simp add: get_sym_append)
  have p6: "\<forall>b < length h. b \<noteq> src \<longrightarrow> ?h' ! b = h ! b"
    by (simp add: nth_append set_sym_def)
  have p7: "take (length h) (fold (mutate ?d) ms ?h') = take (length h) ?h'
            \<and> own_keys (fold (mutate ?d) ms ?h') src = own_keys h src
            \<and> for_in (fold (mutate ?d) ms ?h') src = for_in h src
            \<and> (\<forall>k. get (fold (mutate ?d) ms ?h') src k = get h src k)
            \<and> get_sym (fold (mutate ?d) ms ?h') src KEYS = get_sym h src KEYS
            \<and> get_sym (fold (mutate ?d) ms ?h') src QUADS = get_sym h src QUADS" for ms
  proof -
    from mutate_last[of ?h0 ms ?ob] len0 obtain ob' where
      f: "fold (mutate ?d) ms ?h' = ?h0 @ [ob']"
      by auto
    have t: "take (length h) (?h0 @ [ob']) = take (length h) ?h'"
      using len0 by simp
    have ok: "own_keys (?h0 @ [ob']) src = own_keys h src"
      using src0 o0 by (simp add: own_keys_def nth_append)
    from t ok src0 k0 q0 g0 f0 show ?thesis
      by (simp add: f get_append get_sym_append for_in_append)
  qed
  from ov p1 p2 p3 p4 p5 p6 p7 show ?thesis by blast
qed

theorem overlay_frame_witness:
  "(1::nat) < length ex_heap
   \<and> (\<exists>d h'. overlay ex_heap 1 = Inr (d, h')
         \<and> props (h' ! 1) = [(''p2'', ObjSet [''c'']), (''p3'', ObjSet [''d''])]
         \<and> get_sym h' 1 KEYS = Num 3
         \<and> h' ! 0 = ex_heap ! 0
         \<and> get (fold (mutate d) [SetKey ''p1'' (ObjSet [''z'']), DeleteKey ''p2'', SetSym KEYS (Num 9)] h')
               1 ''p1'' = ObjSet [''a'']
         \<and> get_sym (fold (mutate d) [SetKey ''p1'' (ObjSet [''z'']), DeleteKey ''p2'', SetSym KEYS (Num 9)] h')
               1 KEYS = Num 3)"
proof -
  have len: "(1::nat) < length ex_heap"
    by (simp add: ex_heap_def)
  have l2: "length ex_heap = 2"
    by (simp add: ex_heap_def)
  have pr: "props (ex_heap ! 1) = [(''p2'', ObjSet [''c'']), (''p3'', ObjSet [''d''])]"
    by (simp add: ex_heap_def)
  have g1: "get ex_heap 1 ''p1'' = ObjSet [''a'']"
    by code_simp
  have s1: "get_sym ex_heap 1 KEYS = Num 3"
    by code_simp
  let ?ms = "[SetKey ''p1'' (ObjSet [''z'']), DeleteKey ''p2'', SetSym KEYS (Num 9)]"
  from overlay_frame[OF len] obtain d h' where
    a: "overlay ex_heap 1 = Inr (d, h')" and
    b: "props (h' ! 1) = props (ex_heap ! 1)" and
    c: "get_sym h' 1 KEYS = get_sym ex_heap 1 KEYS" and
    e: "\<forall>b < length ex_heap. b \<noteq> 1 \<longrightarrow> h' ! b = ex_heap ! b" and
    f: "\<forall>ms. (\<forall>k. get (fold (mutate d) ms h') 1 k = get ex_heap 1 k)
            \<and> get_sym (fold (mutate d) ms h') 1 KEYS = get_sym ex_heap 1 KEYS"
    by blast
  from e l2 have e': "h' ! 0 = ex_heap ! 0"
    by simp
  from f have f1: "get (fold (mutate d) ?ms h') 1 ''p1'' = get ex_heap 1 ''p1''"
    by blast
  from f have f2: "get_sym (fold (mutate d) ?ms h') 1 KEYS = get_sym ex_heap 1 KEYS"
    by blast
  from a b c e' f1 f2 pr g1 s1 have
    "overlay ex_heap 1 = Inr (d, h')
         \<and> props (h' ! 1) = [(''p2'', ObjSet [''c'']), (''p3'', ObjSet [''d''])]
         \<and> get_sym h' 1 KEYS = Num 3
         \<and> h' ! 0 = ex_heap ! 0
         \<and> get (fold (mutate d) ?ms h') 1 ''p1'' = ObjSet [''a'']
         \<and> get_sym (fold (mutate d) ?ms h') 1 KEYS = Num 3"
    by simp
  with len show ?thesis by blast
qed

text \<open>
  C7. For every node \<open>n\<close>, \<^verbatim>\<open>trace(n)\<close> returns a fresh node (its address is not one of
  the heap before the call) that has neither the \<^verbatim>\<open>$_OVERLAY\<close> nor the \<^verbatim>\<open>$_BURIED\<close> marker,
  own or inherited, whatever markers \<open>n\<close> has; and every object that existed before the
  call, \<open>n\<close> included, is the same afterwards.
\<close>

theorem trace_fresh_unmarked:
  assumes "n < length h"
  shows "\<exists>d h'. trace h n = Inr (d, h')
           \<and> d = length h \<and> length h' = Suc (length h)
           \<and> take (length h) h' = h
           \<and> h' ! n = h ! n
           \<and> map_of (syms (h' ! d)) OVERLAY = None
           \<and> map_of (syms (h' ! d)) BURIED = None
           \<and> proto (h' ! d) = None
           \<and> get_sym h' d OVERLAY = Undefined
           \<and> get_sym h' d BURIED = Undefined"
proof -
  let ?ob = "\<lparr>props = fold (\<lambda>k. AList.update k (get h n k)) (for_in h n) [],
              syms = [(KEYS, get_sym h n KEYS), (QUADS, get_sym h n QUADS)],
              proto = None\<rparr>"
  have tr: "trace h n = Inr (length h, h @ [?ob])"
    using assms by (rule trace_closed)
  have old: "(h @ [?ob]) ! n = h ! n"
    using assms by (simp add: nth_append)
  have so: "get_sym (h @ [?ob]) (length h) OVERLAY = Undefined"
    by (simp add: get_sym_last)
  have sb: "get_sym (h @ [?ob]) (length h) BURIED = Undefined"
    by (simp add: get_sym_last)
  from tr old so sb show ?thesis by simp
qed

theorem trace_fresh_unmarked_witness:
  "(1::nat) < length ex_heap
   \<and> get_sym ex_heap 1 OVERLAY = Num 1
   \<and> get_sym ex_heap 1 BURIED = Num 1
   \<and> (\<exists>d h'. trace ex_heap 1 = Inr (d, h')
         \<and> d = 2 \<and> take 2 h' = ex_heap
         \<and> get_sym h' d OVERLAY = Undefined
         \<and> get_sym h' d BURIED = Undefined)"
proof -
  have len: "(1::nat) < length ex_heap"
    by (simp add: ex_heap_def)
  have so: "get_sym ex_heap 1 OVERLAY = Num 1"
    by code_simp
  have sb: "get_sym ex_heap 1 BURIED = Num 1"
    by code_simp
  have l2: "length ex_heap = 2"
    by (simp add: ex_heap_def)
  from trace_fresh_unmarked[OF len] l2 have
    "\<exists>d h'. trace ex_heap 1 = Inr (d, h')
         \<and> d = 2 \<and> take 2 h' = ex_heap
         \<and> get_sym h' d OVERLAY = Undefined
         \<and> get_sym h' d BURIED = Undefined"
    by auto
  with len so sb show ?thesis by blast
qed

text \<open>
  C10. \<^verbatim>\<open>overlayTree(n_keys, n_quads)\<close> returns a node whose \<^verbatim>\<open>$_KEYS\<close> counter is
  \<open>n_keys\<close>, whose \<^verbatim>\<open>$_QUADS\<close> counter is \<open>n_quads\<close> and which has no string-keyed entry. With
  the default arguments both counters are 0, and a dataset built over that node has size 0,
  \<^verbatim>\<open>distinctGraphCount()\<close> 0 and enumerates no graph.
\<close>

theorem overlayTree_counters:
  "get_sym (snd (overlayTree h (Num n_keys) (Num n_quads))) (fst (overlayTree h (Num n_keys) (Num n_quads))) KEYS = Num n_keys
   \<and> get_sym (snd (overlayTree h (Num n_keys) (Num n_quads))) (fst (overlayTree h (Num n_keys) (Num n_quads))) QUADS = Num n_quads
   \<and> own_keys (snd (overlayTree h (Num n_keys) (Num n_quads))) (fst (overlayTree h (Num n_keys) (Num n_quads))) = []
   \<and> for_in (snd (overlayTree h (Num n_keys) (Num n_quads))) (fst (overlayTree h (Num n_keys) (Num n_quads))) = []
   \<and> get_sym (snd (overlayTree h Undefined Undefined)) (fst (overlayTree h Undefined Undefined)) KEYS = Num 0
   \<and> get_sym (snd (overlayTree h Undefined Undefined)) (fst (overlayTree h Undefined Undefined)) QUADS = Num 0
   \<and> own_keys (snd (overlayTree h Undefined Undefined)) (fst (overlayTree h Undefined Undefined)) = []
   \<and> size_ds (snd (overlayTree h Undefined Undefined))
        (constructor (snd (overlayTree h Undefined Undefined)) (fst (overlayTree h Undefined Undefined)) pm b) = Num 0
   \<and> distinctGraphCount (snd (overlayTree h Undefined Undefined))
        (constructor (snd (overlayTree h Undefined Undefined)) (fst (overlayTree h Undefined Undefined)) pm b) = Num 0
   \<and> fst (distinctC1Graphs (snd (overlayTree h Undefined Undefined))
        (constructor (snd (overlayTree h Undefined Undefined)) (fst (overlayTree h Undefined Undefined)) pm b)) = []
   \<and> fst (distinctGraphs graphFromC1 (snd (overlayTree h Undefined Undefined))
        (constructor (snd (overlayTree h Undefined Undefined)) (fst (overlayTree h Undefined Undefined)) pm b)) = []"
  by (simp add: overlayTree_def alloc_def default_arg_def get_sym_last for_in_last own_keys_def
      size_ds_def constructor_def distinctGraphCount_def distinctC1Graphs_def
      total_distinct_graphs_def distinctGraphs_def)

section \<open>Claims about the dataset facade\<close>



text \<open>
  C6. The claim fails on the code. In the multi-graph branch \<^verbatim>\<open>distinctSubjectCount()\<close>
  unions \<^verbatim>\<open>Object.keys\<close> of each graph node, which are the own keys only, while
  \<^verbatim>\<open>distinctC1Subjects()\<close> enumerates each graph node with \<^verbatim>\<open>for..in\<close>, inherited keys
  included. On the two-graph dataset whose graph \<open>g\<close> is the node that \<^verbatim>\<open>overlay\<close> returns
  for a graph with one subject, the count is 0 and the enumeration has one subject.
\<close>

theorem distinctSubjectCount_misses_inherited:
  "distinctSubjectCount two_graph_heap two_graph_ds = Inr (Num 0)
   \<and> fst (distinctC1Subjects two_graph_heap two_graph_ds) = [''s1'']
   \<and> overlay two_graph_base 1 = Inr (2, take 3 two_graph_heap)
   \<and> get_sym two_graph_heap 2 OVERLAY = Num 1
   \<and> distinctGraphCount two_graph_heap two_graph_ds = Num 2"
  by code_simp

text \<open>
  C9. As stated the claim fails: the constructor stores what it is given and does not put
  a default graph into the root, so a dataset over \<^verbatim>\<open>overlayTree()\<close> has no key \<^verbatim>\<open>'*'\<close>. What
  holds for every dataset constructed from a root: the shortcut \<^verbatim>\<open>_hc3_trips\<close> is the value
  that reading the reserved key \<^verbatim>\<open>'*'\<close> on the root gives at construction time. That is the
  child stored under the key, in the root or in a node the root delegates to, when the root
  has the key, and \<^verbatim>\<open>undefined\<close> when it has not.
\<close>

theorem constructor_caches_default_graph:
  "hc4_quads (constructor h r pm bp) = r
   \<and> hc3_trips (constructor h r pm bp) = get h r ''*''
   \<and> (''*'' \<in> effective_keys h r \<longrightarrow>
        (\<exists>b \<in> set (chain h r).
           map_of (props (h ! b)) ''*'' = Some (hc3_trips (constructor h r pm bp))))
   \<and> (''*'' \<notin> effective_keys h r \<longrightarrow> hc3_trips (constructor h r pm bp) = Undefined)"
proof -
  have a: "hc3_trips (constructor h r pm bp) = get h r ''*''"
    by (simp add: constructor_def)
  have b: "\<exists>b \<in> set (chain h r). map_of (props (h ! b)) ''*'' = Some (get h r ''*'')"
    if "''*'' \<in> effective_keys h r"
    using that for_in_from_owner[of "''*''" h "chain h r"]
    by (simp add: effective_keys_for_in for_in_def get_def)
  have c: "get h r ''*'' = Undefined" if "''*'' \<notin> effective_keys h r"
    using that by (simp add: effective_keys_for_in get_absent)
  from a b c show ?thesis
    by (simp add: constructor_def)
qed

theorem constructor_caches_default_graph_witness:
  "''*'' \<in> effective_keys overlay_root_heap 4
   \<and> hc3_trips (constructor overlay_root_heap 4 () False) = Ref 2
   \<and> (\<exists>b \<in> set (chain overlay_root_heap 4).
         map_of (props (overlay_root_heap ! b)) ''*'' = Some (Ref 2))
   \<and> ''*'' \<notin> effective_keys (snd bare_root) (fst bare_root)
   \<and> hc3_trips (constructor (snd bare_root) (fst bare_root) () False) = Undefined"
proof -
  have k: "''*'' \<in> effective_keys overlay_root_heap 4"
    by code_simp
  have v: "hc3_trips (constructor overlay_root_heap 4 () False) = Ref 2"
    by code_simp
  have nk: "''*'' \<notin> effective_keys (snd bare_root) (fst bare_root)"
    by code_simp
  from constructor_caches_default_graph[of overlay_root_heap 4 "()" False] k
  have "\<exists>b \<in> set (chain overlay_root_heap 4).
         map_of (props (overlay_root_heap ! b)) ''*''
           = Some (hc3_trips (constructor overlay_root_heap 4 () False))"
    by blast
  then have e: "\<exists>b \<in> set (chain overlay_root_heap 4).
         map_of (props (overlay_root_heap ! b)) ''*'' = Some (Ref 2)"
    by (simp only: v)
  from constructor_caches_default_graph[of "snd bare_root" "fst bare_root" "()" False] nk
  have u: "hc3_trips (constructor (snd bare_root) (fst bare_root) () False) = Undefined"
    by blast
  from k v e nk u show ?thesis by blast
qed

theorem default_graph_absent_counterexample:
  "''*'' \<notin> set (for_in (snd bare_root) (fst bare_root))
   \<and> ''*'' \<notin> set (own_keys (snd bare_root) (fst bare_root))
   \<and> hc3_trips bare_ds = Undefined"
  by code_simp

text \<open>
  C8. The four enumeration methods write to no object: the heap after each call is the heap
  before it, so a second call gives the same result as the first. Each call is a complete
  traversal: the set of graph keys is exactly the set of effective keys of the root, the
  set of subject keys is exactly the union of the effective keys of every graph node that
  an effective key of the root leads to, neither holds a duplicate, and each generator
  yields the decoded term of every key of its set, once per key. What is yielded is a
  finite list.
\<close>

theorem enumeration_read_only:
  "snd (distinctC1Graphs h ds) = h
   \<and> snd (distinctC1Subjects h ds) = h
   \<and> snd (distinctGraphs graphFromC1 h ds) = h
   \<and> snd (distinctSubjects subjectFromC1 h ds) = h
   \<and> distinctC1Graphs (snd (distinctC1Graphs h ds)) ds = distinctC1Graphs h ds
   \<and> distinctC1Subjects (snd (distinctC1Subjects h ds)) ds = distinctC1Subjects h ds
   \<and> distinctGraphs graphFromC1 (snd (distinctGraphs graphFromC1 h ds)) ds
        = distinctGraphs graphFromC1 h ds
   \<and> distinctSubjects subjectFromC1 (snd (distinctSubjects subjectFromC1 h ds)) ds
        = distinctSubjects subjectFromC1 h ds
   \<and> distinct (fst (distinctC1Graphs h ds))
   \<and> distinct (fst (distinctC1Subjects h ds))
   \<and> set (fst (distinctC1Graphs h ds)) = effective_keys h (hc4_quads ds)
   \<and> set (fst (distinctC1Subjects h ds))
        = (\<Union>g \<in> effective_keys h (hc4_quads ds).
             (case get h (hc4_quads ds) g of Ref a \<Rightarrow> effective_keys h a | _ \<Rightarrow> {}))
   \<and> fst (distinctGraphs graphFromC1 h ds)
        = map (\<lambda>sc1_graph. graphFromC1 sc1_graph (h_prefixes ds)) (fst (distinctC1Graphs h ds))
   \<and> fst (distinctSubjects subjectFromC1 h ds)
        = map (\<lambda>sc1_subject. subjectFromC1 sc1_subject (h_prefixes ds))
              (fst (distinctC1Subjects h ds))
   \<and> set (fst (distinctGraphs graphFromC1 h ds))
        = (\<lambda>sc1_graph. graphFromC1 sc1_graph (h_prefixes ds)) ` effective_keys h (hc4_quads ds)
   \<and> set (fst (distinctSubjects subjectFromC1 h ds))
        = (\<lambda>sc1_subject. subjectFromC1 sc1_subject (h_prefixes ds)) `
            (\<Union>g \<in> effective_keys h (hc4_quads ds).
               (case get h (hc4_quads ds) g of Ref a \<Rightarrow> effective_keys h a | _ \<Rightarrow> {}))
   \<and> length (fst (distinctGraphs graphFromC1 h ds)) = card (effective_keys h (hc4_quads ds))
   \<and> length (fst (distinctSubjects subjectFromC1 h ds))
        = card (\<Union>g \<in> effective_keys h (hc4_quads ds).
                  (case get h (hc4_quads ds) g of Ref a \<Rightarrow> effective_keys h a | _ \<Rightarrow> {}))
   \<and> finite (set (fst (distinctGraphs graphFromC1 h ds)))
   \<and> finite (set (fst (distinctSubjects subjectFromC1 h ds)))"
proof -
  let ?S = "\<Union>g \<in> effective_keys h (hc4_quads ds).
              (case get h (hc4_quads ds) g of Ref a \<Rightarrow> effective_keys h a | _ \<Rightarrow> {})"
  have s1: "snd (distinctC1Graphs h ds) = h"
    by (simp add: distinctC1Graphs_def total_distinct_graphs_def)
  have s2: "snd (distinctC1Subjects h ds) = h"
    by (simp add: distinctC1Subjects_def total_distinct_subjects_def)
  have m1: "fst (distinctGraphs graphFromC1 h ds)
        = map (\<lambda>sc1_graph. graphFromC1 sc1_graph (h_prefixes ds)) (fst (distinctC1Graphs h ds))"
    by (simp add: distinctGraphs_def split: prod.splits)
  have m2: "fst (distinctSubjects subjectFromC1 h ds)
        = map (\<lambda>sc1_subject. subjectFromC1 sc1_subject (h_prefixes ds))
              (fst (distinctC1Subjects h ds))"
    by (simp add: distinctSubjects_def split: prod.splits)
  have s3: "snd (distinctGraphs graphFromC1 h ds) = h"
    by (simp add: distinctGraphs_def distinctC1Graphs_def total_distinct_graphs_def)
  have s4: "snd (distinctSubjects subjectFromC1 h ds) = h"
    by (simp add: distinctSubjects_def distinctC1Subjects_def total_distinct_subjects_def)
  have d1: "distinct (fst (distinctC1Graphs h ds))"
    by (simp add: distinctC1Graphs_def total_distinct_graphs_def)
  have d2: "distinct (fst (distinctC1Subjects h ds))"
    by (simp add: distinctC1Subjects_def total_distinct_subjects_def fold_subjects_distinct)
  have e1: "set (fst (distinctC1Graphs h ds)) = effective_keys h (hc4_quads ds)"
    by (simp add: distinctC1Graphs_def total_distinct_graphs_set)
  have e2: "set (fst (distinctC1Subjects h ds)) = ?S"
    by (simp only: distinctC1Subjects_def total_distinct_subjects_set)
  have i1: "set (fst (distinctGraphs graphFromC1 h ds))
        = (\<lambda>sc1_graph. graphFromC1 sc1_graph (h_prefixes ds)) ` effective_keys h (hc4_quads ds)"
    by (simp only: m1 set_map e1)
  have i2: "set (fst (distinctSubjects subjectFromC1 h ds))
        = (\<lambda>sc1_subject. subjectFromC1 sc1_subject (h_prefixes ds)) ` ?S"
    by (simp only: m2 set_map e2)
  have "card (set (fst (distinctC1Graphs h ds))) = length (fst (distinctC1Graphs h ds))"
    using d1 by (rule distinct_card)
  then have l1: "length (fst (distinctGraphs graphFromC1 h ds)) = card (effective_keys h (hc4_quads ds))"
    by (simp add: m1 e1)
  have "card (set (fst (distinctC1Subjects h ds))) = length (fst (distinctC1Subjects h ds))"
    using d2 by (rule distinct_card)
  then have l2: "length (fst (distinctSubjects subjectFromC1 h ds)) = card ?S"
    by (simp add: m2 e2)
  have c1: "distinctC1Graphs (snd (distinctC1Graphs h ds)) ds = distinctC1Graphs h ds"
    by (simp only: s1)
  have c2: "distinctC1Subjects (snd (distinctC1Subjects h ds)) ds = distinctC1Subjects h ds"
    by (simp only: s2)
  have c3: "distinctGraphs graphFromC1 (snd (distinctGraphs graphFromC1 h ds)) ds
        = distinctGraphs graphFromC1 h ds"
    by (simp only: s3)
  have c4: "distinctSubjects subjectFromC1 (snd (distinctSubjects subjectFromC1 h ds)) ds
        = distinctSubjects subjectFromC1 h ds"
    by (simp only: s4)
  have f1: "finite (set (fst (distinctGraphs graphFromC1 h ds)))"
    by (rule List.finite_set)
  have f2: "finite (set (fst (distinctSubjects subjectFromC1 h ds)))"
    by (rule List.finite_set)
  show ?thesis
    by (intro conjI s1 s2 s3 s4 c1 c2 c3 c4 d1 d2 e1 e2 m1 m2 i1 i2 l1 l2 f1 f2)
qed

theorem enumeration_read_only_witness:
  "fst (distinctGraphs plain_codec overlay_root_heap overlay_root_ds) = [''g2'', ''*'', ''g1'']
   \<and> fst (distinctSubjects plain_codec overlay_root_heap overlay_root_ds) = [''s1'']
   \<and> fst (distinctSubjects plain_codec two_graph_heap two_graph_ds) = [''s1'']
   \<and> effective_keys overlay_root_heap (hc4_quads overlay_root_ds) = {''g2'', ''*'', ''g1''}
   \<and> (\<Union>g \<in> effective_keys two_graph_heap (hc4_quads two_graph_ds).
          (case get two_graph_heap (hc4_quads two_graph_ds) g of
             Ref a \<Rightarrow> effective_keys two_graph_heap a | _ \<Rightarrow> {})) = {''s1''}
   \<and> snd (distinctSubjects plain_codec two_graph_heap two_graph_ds) = two_graph_heap
   \<and> snd (distinctGraphs plain_codec overlay_root_heap overlay_root_ds) = overlay_root_heap"
proof -
  have a: "fst (distinctGraphs plain_codec overlay_root_heap overlay_root_ds) = [''g2'', ''*'', ''g1'']"
    by code_simp
  have a': "fst (distinctC1Graphs overlay_root_heap overlay_root_ds) = [''g2'', ''*'', ''g1'']"
    by code_simp
  have b: "fst (distinctSubjects plain_codec overlay_root_heap overlay_root_ds) = [''s1'']"
    by code_simp
  have c: "fst (distinctSubjects plain_codec two_graph_heap two_graph_ds) = [''s1'']"
    by code_simp
  have c': "fst (distinctC1Subjects two_graph_heap two_graph_ds) = [''s1'']"
    by code_simp
  note t1 = enumeration_read_only[of overlay_root_heap overlay_root_ds plain_codec plain_codec]
  note t2 = enumeration_read_only[of two_graph_heap two_graph_ds plain_codec plain_codec]
  from t1 have "set (fst (distinctC1Graphs overlay_root_heap overlay_root_ds))
          = effective_keys overlay_root_heap (hc4_quads overlay_root_ds)"
    by (elim conjE)
  then have e: "effective_keys overlay_root_heap (hc4_quads overlay_root_ds) = {''g2'', ''*'', ''g1''}"
    by (simp add: a')
  from t2 have "set (fst (distinctC1Subjects two_graph_heap two_graph_ds))
      = (\<Union>g \<in> effective_keys two_graph_heap (hc4_quads two_graph_ds).
             (case get two_graph_heap (hc4_quads two_graph_ds) g of
                Ref a \<Rightarrow> effective_keys two_graph_heap a | _ \<Rightarrow> {}))"
    by (elim conjE)
  then have f: "(\<Union>g \<in> effective_keys two_graph_heap (hc4_quads two_graph_ds).
             (case get two_graph_heap (hc4_quads two_graph_ds) g of
                Ref a \<Rightarrow> effective_keys two_graph_heap a | _ \<Rightarrow> {})) = {''s1''}"
    by (simp only: c' list.set)
  from t2 have i: "snd (distinctSubjects plain_codec two_graph_heap two_graph_ds) = two_graph_heap"
    by (elim conjE)
  from t1 have j: "snd (distinctGraphs plain_codec overlay_root_heap overlay_root_ds) = overlay_root_heap"
    by (elim conjE)
  show ?thesis
    by (intro conjI a b c e f i j)
qed

section \<open>The claim about adding and deleting quads\<close>

text \<open>
  C4. For every sequence of \<^verbatim>\<open>add\<close>/\<^verbatim>\<open>delete\<close> operations run from the empty tree: the
  tree satisfies the counter invariant at every node (\<open>quadCount\<close> is the sum of the
  children's quad counts, the size of the object set at the bottom; \<open>keyCount\<close> is the
  number of keys); the full traversal yields each stored quad once and yields exactly the
  quads that the operations leave stored; and the root's \<open>quadCount\<close>, which is what the
  \<^verbatim>\<open>size\<close> accessor returns, is the number of quads of the traversal, that is, the number
  of distinct quads stored.
\<close>

theorem quadCount_counts_stored_quads:
  "quads_ok (run ops)
   \<and> distinct (iterate_quads (run ops))
   \<and> set (iterate_quads (run ops)) = stored ops
   \<and> quadCount (run ops) = int (length (iterate_quads (run ops)))
   \<and> size_tree (run ops) = int (card (stored ops))
   \<and> size_ds (fst (dataset_of (run ops))) (snd (dataset_of (run ops)))
       = Num (int (card (stored ops)))"
proof -
  have ok: "quads_ok (run ops)"
    by (rule run_ok)
  have d: "distinct (iterate_quads (run ops))"
    using ok by (rule quads_distinct)
  have st: "set (iterate_quads (run ops)) = stored ops"
    by (rule set_iterate_run)
  have len: "quadCount (run ops) = int (length (iterate_quads (run ops)))"
    using quads_count[OF ok] by simp
  have "card (set (iterate_quads (run ops))) = length (iterate_quads (run ops))"
    using d by (rule distinct_card)
  with len st have c: "quadCount (run ops) = int (card (stored ops))"
    by simp
  from ok d st len c show ?thesis
    by (simp add: size_tree_def size_ds_dataset_of)
qed

theorem quadCount_counts_stored_quads_witness:
  "quads_ok (run ex_ops)
   \<and> iterate_quads (run ex_ops) = [(''*'', ''s1'', ''p1'', ''o2''), (''g'', ''s2'', ''p1'', ''o1'')]
   \<and> stored ex_ops = {(''*'', ''s1'', ''p1'', ''o2''), (''g'', ''s2'', ''p1'', ''o1'')}
   \<and> size_tree (run ex_ops) = 2
   \<and> size_ds (fst (dataset_of (run ex_ops))) (snd (dataset_of (run ex_ops))) = Num 2"
proof -
  have it: "iterate_quads (run ex_ops)
              = [(''*'', ''s1'', ''p1'', ''o2''), (''g'', ''s2'', ''p1'', ''o1'')]"
    by code_simp
  from quadCount_counts_stored_quads[of ex_ops] show ?thesis
    by (simp add: it size_tree_def)
qed

end
